theory Spec2Isabelle
  imports Main "HOL-Library.Monad_Syntax" "HOL-Library.Signed_Division"
begin

unbundle bit_operations_syntax

section \<open>Constants\<close>

text \<open>
  Modelled from the spec: \<open>REG_SIZE\<close> is defined in the header x11-calc-cpu.h, which is
  not among the sources. The spec fixes the register width at N = 14 nibbles; the
  comments of x11-calc-cpu.c say that a register consists of 14 nibbles and give the
  word field as nibbles 0 to 13 where the code writes \<open>REG_SIZE - 1\<close>.
\<close>

definition REG_SIZE :: int where
  "REG_SIZE = 14"

text \<open>
  Modelled from the spec: \<open>EXP_SIZE\<close> is defined in the same missing header. The field
  table of the spec and the comments of x11-calc-cpu.c (a two-digit exponent and its
  sign in nibbles 0 to 2) start the mantissa at nibble 3, where the code writes
  \<open>EXP_SIZE\<close>. The field decoder below takes the value as an argument, so that what it
  does can also be stated for any value of the constant.
\<close>

definition EXP_SIZE :: int where
  "EXP_SIZE = 3"

text \<open>\<open>ROM_SIZE\<close> (octal 07000) and \<open>ROM_BANKS\<close> as in x11-calc-32.h.\<close>

definition ROM_SIZE :: int where
  "ROM_SIZE = 3584"

definition ROM_BANKS :: int where
  "ROM_BANKS = 1"

section \<open>Processor state\<close>

text \<open>
  The eight architectural registers, in the order of the array \<open>reg\<close> (the order of
  \<open>c_name\<close> in \<open>v_reg_fprint\<close>). A register pointer of the C code is either one of
  these or an element of the array \<open>ram\<close>. The flags are those that x11-calc-cpu.c
  names, and the timer of its header comment.
\<close>

datatype regname = A_REG | B_REG | C_REG | Y_REG | Z_REG | T_REG | M_REG | N_REG

datatype regptr = Reg regname | Ram nat

datatype flag = MODE | CARRY | PREV_CARRY | DELAYED_ROM | DISPLAY_ENABLE | TIMER | TRACE

text \<open>
  What \<open>v_error\<close> (x11-calc.c) prints on the error stream: it formats the message and
  returns to its caller. \<open>Unexpected_opcode\<close> carries the opcode, the ROM number and the
  program counter in the order of the format string; the source line number is left out.
\<close>

datatype error_msg =
    Unexpected_opcode int int int
  | Unexpected_error
  | Address_out_of_range int

text \<open>
  The structure \<open>oprocessor\<close>, with the members that x11-calc-cpu.c uses (its
  declaration is in the missing header). Every C \<open>int\<close> is an \<open>int\<close> here: the limits
  of a 32-bit integer are not modelled, and no property below is about values near them.
  An array is a list; the arrays \<open>ram\<close> and \<open>stack\<close> have \<open>DATA_REGISTERS\<close> and
  \<open>STACK_SIZE\<close> elements, constants of the missing header, which the model reads off
  the lengths of the lists. \<open>field_first\<close>, \<open>field_last\<close>, \<open>p_reg\<close> and \<open>f_reg\<close> are the
  members \<open>first\<close>, \<open>last\<close>, \<open>p\<close> and \<open>f\<close>. \<open>errors\<close> is the text written by \<open>v_error\<close>
  so far; trace output on the standard output is not modelled.
\<close>

record oprocessor =
  reg :: "regname \<Rightarrow> int list"
  ram :: "int list list"
  rom :: "int \<Rightarrow> int"
  stack :: "int list"
  status :: "int list"
  flags :: "flag \<Rightarrow> int"
  pc :: int
  sp :: int
  p_reg :: int
  f_reg :: int
  field_first :: int
  field_last :: int
  base :: int
  keycode :: int
  keydown :: int
  address :: int
  rom_number :: int
  delayed_rom_number :: int
  errors :: "error_msg list"

definition v_error :: "error_msg \<Rightarrow> oprocessor \<Rightarrow> oprocessor" where
  "v_error m s = s\<lparr>errors := errors s @ [m]\<rparr>"

definition set_flag :: "flag \<Rightarrow> int \<Rightarrow> oprocessor \<Rightarrow> oprocessor" where
  "set_flag fl v s = s\<lparr>flags := (flags s)(fl := v)\<rparr>"

subsection \<open>Array accesses\<close>

text \<open>
  Reading or writing a C array outside its bounds is undefined; the model returns
  \<open>None\<close> there, and so does every operation that would do it.
\<close>

definition at :: "'a list \<Rightarrow> int \<Rightarrow> 'a option" where
  "at xs i = (if 0 \<le> i \<and> i < int (length xs) then Some (xs ! nat i) else None)"

definition upd :: "'a list \<Rightarrow> int \<Rightarrow> 'a \<Rightarrow> 'a list option" where
  "upd xs i v = (if 0 \<le> i \<and> i < int (length xs) then Some (xs[nat i := v]) else None)"

fun nibbles :: "oprocessor \<Rightarrow> regptr \<Rightarrow> int list option" where
  "nibbles s (Reg r) = Some (reg s r)"
| "nibbles s (Ram k) = (if k < length (ram s) then Some (ram s ! k) else None)"

fun put_nibbles :: "regptr \<Rightarrow> int list \<Rightarrow> oprocessor \<Rightarrow> oprocessor" where
  "put_nibbles (Reg r) xs s = s\<lparr>reg := (reg s)(r := xs)\<rparr>"
| "put_nibbles (Ram k) xs s = s\<lparr>ram := (ram s)[k := xs]\<rparr>"

definition get_nibble :: "oprocessor \<Rightarrow> regptr \<Rightarrow> int \<Rightarrow> int option" where
  "get_nibble s r i = (case nibbles s r of None \<Rightarrow> None | Some xs \<Rightarrow> at xs i)"

definition set_nibble :: "regptr \<Rightarrow> int \<Rightarrow> int \<Rightarrow> oprocessor \<Rightarrow> oprocessor option" where
  "set_nibble r i v s =
     (case nibbles s r of
        None \<Rightarrow> None
      | Some xs \<Rightarrow> (case upd xs i v of None \<Rightarrow> None | Some ys \<Rightarrow> Some (put_nibbles r ys s)))"

text \<open>The nibble of an optional source register: a null pointer reads as zero.\<close>

definition src_nibble :: "oprocessor \<Rightarrow> regptr option \<Rightarrow> int \<Rightarrow> int option" where
  "src_nibble s r i = (case r of None \<Rightarrow> Some 0 | Some q \<Rightarrow> get_nibble s q i)"

text \<open>The store through an optional destination: nothing is stored through a null pointer.\<close>

definition dst_nibble :: "regptr option \<Rightarrow> int \<Rightarrow> int \<Rightarrow> oprocessor \<Rightarrow> oprocessor option" where
  "dst_nibble r i v s = (case r of None \<Rightarrow> Some s | Some q \<Rightarrow> set_nibble q i v s)"

subsection \<open>Loops\<close>

text \<open>
  A \<open>for\<close> loop whose body does not change its bounds runs the body on each index in
  turn; \<open>[i..j]\<close> is the list of the integers from \<open>i\<close> to \<open>j\<close>, empty when \<open>j < i\<close>.
\<close>

fun for_each :: "'i list \<Rightarrow> ('i \<Rightarrow> oprocessor \<Rightarrow> oprocessor option) \<Rightarrow> oprocessor \<Rightarrow> oprocessor option" where
  "for_each [] body s = Some s"
| "for_each (i # is) body s =
     (case body i s of None \<Rightarrow> None | Some s' \<Rightarrow> for_each is body s')"

definition field :: "oprocessor \<Rightarrow> int list" where
  "field s = [field_first s..field_last s]"

section \<open>Register operations\<close>

definition exch_step :: "regptr \<Rightarrow> regptr \<Rightarrow> int \<Rightarrow> oprocessor \<Rightarrow> oprocessor option" where
  "exch_step h_destination h_source i s = do {
     i_temp \<leftarrow> get_nibble s h_destination i;
     x \<leftarrow> get_nibble s h_source i;
     s1 \<leftarrow> set_nibble h_destination i x s;
     set_nibble h_source i i_temp s1
   }"

definition v_reg_exch :: "regptr \<Rightarrow> regptr \<Rightarrow> oprocessor \<Rightarrow> oprocessor option" where
  "v_reg_exch h_destination h_source s = for_each (field s) (exch_step h_destination h_source) s"

definition copy_step :: "regptr \<Rightarrow> regptr option \<Rightarrow> int \<Rightarrow> oprocessor \<Rightarrow> oprocessor option" where
  "copy_step h_destination h_source i s = do {
     i_temp \<leftarrow> src_nibble s h_source i;
     set_nibble h_destination i i_temp s
   }"

definition v_reg_copy :: "regptr \<Rightarrow> regptr option \<Rightarrow> oprocessor \<Rightarrow> oprocessor option" where
  "v_reg_copy h_destination h_source s = for_each (field s) (copy_step h_destination h_source) s"

definition add_step :: "regptr option \<Rightarrow> regptr \<Rightarrow> regptr option \<Rightarrow> int \<Rightarrow> oprocessor \<Rightarrow> oprocessor option" where
  "add_step h_destination h_source h_argument i s = do {
     a \<leftarrow> src_nibble s h_argument i;
     x \<leftarrow> get_nibble s h_source i;
     (let i_temp = x + a + flags s CARRY in
      if i_temp \<ge> base s
      then dst_nibble h_destination i (i_temp - base s) (set_flag CARRY 1 s)
      else dst_nibble h_destination i i_temp (set_flag CARRY 0 s))
   }"

definition v_reg_add :: "regptr option \<Rightarrow> regptr \<Rightarrow> regptr option \<Rightarrow> oprocessor \<Rightarrow> oprocessor option" where
  "v_reg_add h_destination h_source h_argument s =
     for_each (field s) (add_step h_destination h_source h_argument) s"

definition sub_step :: "regptr option \<Rightarrow> regptr option \<Rightarrow> regptr option \<Rightarrow> int \<Rightarrow> oprocessor \<Rightarrow> oprocessor option" where
  "sub_step h_destination h_source h_argument i s = do {
     a \<leftarrow> src_nibble s h_argument i;
     x \<leftarrow> src_nibble s h_source i;
     (let i_temp = x - a - flags s CARRY in
      if i_temp < 0
      then dst_nibble h_destination i (i_temp + base s) (set_flag CARRY 1 s)
      else dst_nibble h_destination i i_temp (set_flag CARRY 0 s))
   }"

definition v_reg_sub :: "regptr option \<Rightarrow> regptr option \<Rightarrow> regptr option \<Rightarrow> oprocessor \<Rightarrow> oprocessor option" where
  "v_reg_sub h_destination h_source h_argument s =
     for_each (field s) (sub_step h_destination h_source h_argument) s"

text \<open>
  The two tests leave the loop at the first nibble that differs, setting the carry to
  \<open>c\<close> there: 1 in \<open>v_reg_test_eq\<close>, which starts from a clear carry, and 0 in
  \<open>v_reg_test_ne\<close>, which starts from a set one.
\<close>

fun test_loop :: "int list \<Rightarrow> int \<Rightarrow> regptr \<Rightarrow> regptr option \<Rightarrow> oprocessor \<Rightarrow> oprocessor option" where
  "test_loop [] c h_destination h_source s = Some s"
| "test_loop (i # is) c h_destination h_source s =
     (case src_nibble s h_source i of
        None \<Rightarrow> None
      | Some i_temp \<Rightarrow>
          (case get_nibble s h_destination i of
             None \<Rightarrow> None
           | Some d \<Rightarrow>
               if d \<noteq> i_temp then Some (set_flag CARRY c s)
               else test_loop is c h_destination h_source s))"

definition v_reg_test_eq :: "regptr \<Rightarrow> regptr option \<Rightarrow> oprocessor \<Rightarrow> oprocessor option" where
  "v_reg_test_eq h_destination h_source s =
     test_loop (field s) 1 h_destination h_source (set_flag CARRY 0 s)"

definition v_reg_test_ne :: "regptr \<Rightarrow> regptr option \<Rightarrow> oprocessor \<Rightarrow> oprocessor option" where
  "v_reg_test_ne h_destination h_source s =
     test_loop (field s) 0 h_destination h_source (set_flag CARRY 1 s)"

definition v_reg_inc :: "regptr \<Rightarrow> oprocessor \<Rightarrow> oprocessor option" where
  "v_reg_inc h_register s = v_reg_add (Some h_register) h_register None (set_flag CARRY 1 s)"

definition shr_step :: "regptr \<Rightarrow> int \<Rightarrow> oprocessor \<Rightarrow> oprocessor option" where
  "shr_step h_register i s =
     (if i = field_last s then set_nibble h_register i 0 s
      else do { x \<leftarrow> get_nibble s h_register (i + 1); set_nibble h_register i x s })"

definition v_reg_shr :: "regptr \<Rightarrow> oprocessor \<Rightarrow> oprocessor option" where
  "v_reg_shr h_register s = for_each (field s) (shr_step h_register) (set_flag CARRY 0 s)"

definition shl_step :: "regptr \<Rightarrow> int \<Rightarrow> oprocessor \<Rightarrow> oprocessor option" where
  "shl_step h_register i s =
     (if i = field_first s then set_nibble h_register i 0 s
      else do { x \<leftarrow> get_nibble s h_register (i - 1); set_nibble h_register i x s })"

definition v_reg_shl :: "regptr \<Rightarrow> oprocessor \<Rightarrow> oprocessor option" where
  "v_reg_shl h_register s =
     (case for_each (rev (field s)) (shl_step h_register) s of
        None \<Rightarrow> None
      | Some s1 \<Rightarrow> Some (set_flag PREV_CARRY 0 (set_flag CARRY 0 s1)))"

section \<open>Clearing and initialising\<close>

definition whole_word :: "oprocessor \<Rightarrow> oprocessor" where
  "whole_word s = s\<lparr>field_first := 0, field_last := REG_SIZE - 1\<rparr>"

text \<open>The array \<open>reg\<close> has an element for each register name (\<open>REGISTERS\<close> of them).\<close>

definition v_processor_clear_registers :: "oprocessor \<Rightarrow> oprocessor option" where
  "v_processor_clear_registers s =
     (case for_each [A_REG, B_REG, C_REG, Y_REG, Z_REG, T_REG, M_REG, N_REG]
             (\<lambda>r. v_reg_copy (Reg r) None) (whole_word s) of
        None \<Rightarrow> None
      | Some s1 \<Rightarrow> Some (s1\<lparr>stack := map (\<lambda>x. 0) (stack s1)\<rparr>))"

definition v_processor_clear_data_registers :: "oprocessor \<Rightarrow> oprocessor option" where
  "v_processor_clear_data_registers s =
     for_each [0..<length (ram s)] (\<lambda>k. v_reg_copy (Ram k) None) (whole_word s)"

definition v_processor_init :: "oprocessor \<Rightarrow> oprocessor option" where
  "v_processor_init s = do {
     s1 \<leftarrow> v_processor_clear_registers s;
     s2 \<leftarrow> v_processor_clear_data_registers s1;
     st5 \<leftarrow> upd (map (\<lambda>x. 0) (status s2)) 5 1;
     st3 \<leftarrow> upd st5 3 1;
     Some (s2\<lparr>status := st3, flags := (\<lambda>fl. 0)(MODE := 1), pc := 0, sp := 0, p_reg := 0,
              f_reg := 0, keycode := 0, keydown := 0, base := 10, delayed_rom_number := 0,
              rom_number := 0\<rparr>)
   }"

text \<open>
  \<open>h_processor_create\<close>: \<open>m\<close> is the block that \<open>malloc\<close> returns, with arbitrary
  contents; the registers are created zeroed, the ROM is attached and the processor is
  initialised.
\<close>

definition h_processor_create :: "oprocessor \<Rightarrow> (int \<Rightarrow> int) \<Rightarrow> oprocessor option" where
  "h_processor_create m h_rom =
     v_processor_init (m\<lparr>reg := (\<lambda>r. replicate (nat REG_SIZE) 0),
                         ram := map (\<lambda>x. replicate (nat REG_SIZE) 0) (ram m),
                         rom := h_rom\<rparr>)"

section \<open>Program counter, subroutines and branches\<close>

definition rom_read :: "oprocessor \<Rightarrow> int \<Rightarrow> int option" where
  "rom_read s a = (if 0 \<le> a \<and> a < ROM_SIZE * ROM_BANKS then Some (rom s a) else None)"

definition delayed_rom_switch :: "oprocessor \<Rightarrow> oprocessor" where
  "delayed_rom_switch s =
     (if flags s DELAYED_ROM \<noteq> 0
      then set_flag DELAYED_ROM 0
             (s\<lparr>pc := push_bit 8 (delayed_rom_number s) OR (pc s AND 255)\<rparr>)
      else s)"

definition v_op_inc_pc :: "oprocessor \<Rightarrow> oprocessor" where
  "v_op_inc_pc s =
     set_flag CARRY 0
       (set_flag PREV_CARRY (flags s CARRY)
          (s\<lparr>pc := (if pc s \<ge> ROM_SIZE - 1 then 0 else pc s + 1)\<rparr>))"

text \<open>\<open>STACK_SIZE\<close> is the number of elements of the array \<open>stack\<close>.\<close>

definition op_jsb :: "int \<Rightarrow> oprocessor \<Rightarrow> oprocessor option" where
  "op_jsb i_count s =
     (case upd (stack s) (sp s) (pc s) of
        None \<Rightarrow> None
      | Some st \<Rightarrow>
          Some (delayed_rom_switch
                  (s\<lparr>stack := st,
                     sp := (sp s + 1) AND (int (length (stack s)) - 1),
                     pc := ((pc s AND 65280) OR i_count) - 1\<rparr>)))"

text \<open>
  \<open>v_op_goto\<close> reads the word at the program counter for the trace line when tracing,
  and as the target when the previous carry is clear; the whole program counter is
  replaced by that word less one.
\<close>

definition v_op_goto :: "oprocessor \<Rightarrow> oprocessor option" where
  "v_op_goto s =
     (if flags s TRACE \<noteq> 0 \<and> rom_read s (pc s) = None then None
      else if flags s PREV_CARRY = 0
      then (case rom_read s (pc s) of
              None \<Rightarrow> None
            | Some w \<Rightarrow> Some (delayed_rom_switch (s\<lparr>pc := w - 1\<rparr>)))
      else Some s)"

text \<open>A test instruction: the program counter advances and the next word is the branch.\<close>

definition then_goto :: "oprocessor \<Rightarrow> oprocessor option" where
  "then_goto s = v_op_goto (v_op_inc_pc s)"

section \<open>The decoder\<close>

definition i_set_p :: "int list" where
  "i_set_p = [14, 4, 7, 8, 11, 2, 10, 12, 1, 3, 13, 6, 0, 9, 5, 14]"

definition i_tst_p :: "int list" where
  "i_tst_p = [4, 8, 12, 2, 9, 1, 6, 3, 1, 13, 5, 0, 11, 10, 7, 4]"

definition unexpected_opcode :: "int \<Rightarrow> oprocessor \<Rightarrow> oprocessor" where
  "unexpected_opcode i_opcode s = v_error (Unexpected_opcode i_opcode (rom_number s) (pc s)) s"

text \<open>
  The opcodes that the source writes in octal are decimal here: 00020 is 16, 00420 is
  272, 00620 is 400, 00720 is 464, 01020 is 528, 01160 is 624, 01260 is 688 and 01760
  is 1008. \<open>smod\<close> is the remainder of C, which takes the sign of the dividend.
\<close>

definition group0 :: "int \<Rightarrow> oprocessor \<Rightarrow> oprocessor option" where
  "group0 i_opcode s =
     (let n = drop_bit 4 i_opcode AND 3 in
      if n = 0 then Some s
      else if n = 1 then
        (if i_opcode = 16 then Some (s\<lparr>pc := (pc s AND 3840) + (keycode s - 1)\<rparr>)
         else if i_opcode = 272 then Some (s\<lparr>base := 16\<rparr>)
         else if i_opcode = 400 then
           Some (s\<lparr>p_reg := (if p_reg s = 0 then REG_SIZE else p_reg s - 1)\<rparr>)
         else if i_opcode = 464 then
           Some (s\<lparr>p_reg := (if p_reg s = REG_SIZE then 0 else p_reg s + 1)\<rparr>)
         else if i_opcode = 528 then
           (let sp' = (sp s - 1) AND (int (length (stack s)) - 1) in
            case at (stack s) sp' of
              None \<Rightarrow> None
            | Some a \<Rightarrow> Some (s\<lparr>sp := sp', pc := a\<rparr>))
         else Some (unexpected_opcode i_opcode s))
      else if n = 2 then Some (s\<lparr>pc := drop_bit 6 i_opcode * 256 + pc s smod 256\<rparr>)
      else
        (if i_opcode = 624 then
           (case get_nibble s (Reg C_REG) 1 of
              None \<Rightarrow> None
            | Some c1 \<Rightarrow>
                (case get_nibble s (Reg C_REG) 0 of
                   None \<Rightarrow> None
                 | Some c0 \<Rightarrow>
                     (let s1 = s\<lparr>address := push_bit 4 c1 + c0\<rparr> in
                      if address s1 \<ge> ROM_SIZE * ROM_BANKS
                      then Some (v_error (Address_out_of_range (address s1)) s1)
                      else Some s1)))
         else if i_opcode = 688 then v_processor_clear_data_registers s
         else if i_opcode = 1008 then Some s
         else Some (unexpected_opcode i_opcode s)))"

definition group1 :: "int \<Rightarrow> oprocessor \<Rightarrow> oprocessor option" where
  "group1 i_opcode s =
     (let n = drop_bit 4 i_opcode AND 3; k = drop_bit 6 i_opcode in
      if n = 0 then
        (case upd (status s) k 1 of None \<Rightarrow> None | Some st \<Rightarrow> Some (s\<lparr>status := st\<rparr>))
      else if n = 1 then
        (case at (status s) k of
           None \<Rightarrow> None
         | Some b \<Rightarrow> then_goto (set_flag CARRY (if b \<noteq> 1 then 1 else 0) s))
      else if n = 2 then
        (case at i_tst_p k of
           None \<Rightarrow> None
         | Some t \<Rightarrow> then_goto (set_flag CARRY (if p_reg s = t then 0 else 1) s))
      else Some (set_flag DELAYED_ROM 1 (s\<lparr>delayed_rom_number := k\<rparr>)))"

text \<open>
  \<open>clear s\<close>: the loop over the status word, from index \<open>i\<close> on, skips the elements
  1, 2, 5 and 15 and zeroes the others.
\<close>

fun clear_status :: "nat \<Rightarrow> int list \<Rightarrow> int list" where
  "clear_status i [] = []"
| "clear_status i (b # bs) =
     (if i = 1 \<or> i = 2 \<or> i = 5 \<or> i = 15 then b else 0) # clear_status (Suc i) bs"

text \<open>
  In group 2 the octal opcodes 00010, 00110, 00210, 00310, 00410, 00510, 00610, 00710,
  01010, 01110, 01210, 01310, 01410, 01610 and 01710 are 8, 72, 136, 200, 264, 328, 392,
  456, 520, 584, 648, 712, 776, 904 and 968.
\<close>

definition group2_sub0 :: "int \<Rightarrow> oprocessor \<Rightarrow> oprocessor option" where
  "group2_sub0 i_opcode s =
     (if i_opcode = 8 then v_processor_clear_registers s
      else if i_opcode = 72 then Some (s\<lparr>status := clear_status 0 (status s)\<rparr>)
      else if i_opcode = 136 then
        Some (set_flag DISPLAY_ENABLE (if flags s DISPLAY_ENABLE = 0 then 1 else 0) s)
      else if i_opcode = 200 then Some (set_flag DISPLAY_ENABLE 0 s)
      else if i_opcode = 264 then v_reg_exch (Reg M_REG) (Reg C_REG) (whole_word s)
      else if i_opcode = 328 then v_reg_copy (Reg C_REG) (Some (Reg M_REG)) (whole_word s)
      else if i_opcode = 392 then v_reg_exch (Reg N_REG) (Reg C_REG) (whole_word s)
      else if i_opcode = 456 then v_reg_copy (Reg C_REG) (Some (Reg N_REG)) (whole_word s)
      else if i_opcode = 520 then do {
        s1 \<leftarrow> v_reg_copy (Reg A_REG) (Some (Reg Y_REG)) (whole_word s);
        s2 \<leftarrow> v_reg_copy (Reg Y_REG) (Some (Reg Z_REG)) s1;
        v_reg_copy (Reg Z_REG) (Some (Reg T_REG)) s2 }
      else if i_opcode = 584 then do {
        s1 \<leftarrow> v_reg_exch (Reg T_REG) (Reg C_REG) (whole_word s);
        s2 \<leftarrow> v_reg_exch (Reg C_REG) (Reg Y_REG) s1;
        v_reg_exch (Reg Y_REG) (Reg Z_REG) s2 }
      else if i_opcode = 648 then v_reg_copy (Reg A_REG) (Some (Reg Y_REG)) (whole_word s)
      else if i_opcode = 712 then do {
        s1 \<leftarrow> v_reg_copy (Reg T_REG) (Some (Reg Z_REG)) (whole_word s);
        s2 \<leftarrow> v_reg_copy (Reg Z_REG) (Some (Reg Y_REG)) s1;
        v_reg_copy (Reg Y_REG) (Some (Reg C_REG)) s2 }
      else if i_opcode = 776 then Some (s\<lparr>base := 10\<rparr>)
      else if i_opcode = 904 then set_nibble (Reg A_REG) 0 (f_reg s) s
      else if i_opcode = 968 then
        (case get_nibble s (Reg A_REG) 0 of
           None \<Rightarrow> None
         | Some i_temp \<Rightarrow>
             (case set_nibble (Reg A_REG) 0 (f_reg s) s of
                None \<Rightarrow> None
              | Some s1 \<Rightarrow> Some (s1\<lparr>f_reg := i_temp\<rparr>)))
      else Some (unexpected_opcode i_opcode s))"

definition group2 :: "int \<Rightarrow> oprocessor \<Rightarrow> oprocessor option" where
  "group2 i_opcode s =
     (let n = drop_bit 4 i_opcode AND 3 in
      if n = 0 then group2_sub0 i_opcode s
      else if n = 1 then
        (case set_nibble (Reg C_REG) (p_reg s) (drop_bit 6 i_opcode) s of
           None \<Rightarrow> None
         | Some s1 \<Rightarrow>
             Some (s1\<lparr>p_reg := (if p_reg s1 > 0 then p_reg s1 - 1 else REG_SIZE - 1)\<rparr>))
      else if n = 2 then Some (unexpected_opcode i_opcode s)
      else Some (unexpected_opcode i_opcode s))"

definition group3 :: "int \<Rightarrow> oprocessor \<Rightarrow> oprocessor option" where
  "group3 i_opcode s =
     (let n = drop_bit 4 i_opcode AND 3; k = drop_bit 6 i_opcode in
      if n = 0 then
        (if k = 5 \<or> k = 15 then
           (if keydown s = 0
            then (case upd (status s) 15 0 of
                    None \<Rightarrow> None
                  | Some st \<Rightarrow> Some (s\<lparr>status := st\<rparr>))
            else Some s)
         else (case upd (status s) k 0 of
                 None \<Rightarrow> None
               | Some st \<Rightarrow> Some (s\<lparr>status := st\<rparr>)))
      else if n = 1 then
        (case at (status s) k of
           None \<Rightarrow> None
         | Some b \<Rightarrow> then_goto (set_flag CARRY (if b \<noteq> 0 then 1 else 0) s))
      else if n = 2 then
        (case at i_tst_p k of
           None \<Rightarrow> None
         | Some t \<Rightarrow> then_goto (set_flag CARRY (if p_reg s = t then 1 else 0) s))
      else
        (case at i_set_p k of
           None \<Rightarrow> None
         | Some t \<Rightarrow> Some (s\<lparr>p_reg := t\<rparr>)))"

definition special :: "int \<Rightarrow> oprocessor \<Rightarrow> oprocessor option" where
  "special i_opcode s =
     (let g = drop_bit 2 i_opcode AND 3 in
      if g = 0 then group0 i_opcode s
      else if g = 1 then group1 i_opcode s
      else if g = 2 then group2 i_opcode s
      else group3 i_opcode s)"

text \<open>
  The field modifier sets the window \<open>first\<close>, \<open>last\<close>. \<open>exp_size\<close> stands for the
  constant \<open>EXP_SIZE\<close>.
\<close>

definition decode_field :: "int \<Rightarrow> int \<Rightarrow> oprocessor \<Rightarrow> oprocessor" where
  "decode_field exp_size i_field s =
     (if i_field = 0 then
        (let s1 = s\<lparr>field_first := p_reg s, field_last := p_reg s\<rparr> in
         if p_reg s1 \<ge> REG_SIZE then (v_error Unexpected_error s1)\<lparr>field_last := 0\<rparr> else s1)
      else if i_field = 1 then
        (let s1 = s\<lparr>field_first := 0, field_last := p_reg s\<rparr> in
         if p_reg s1 \<ge> REG_SIZE
         then (v_error Unexpected_error s1)\<lparr>field_last := REG_SIZE - 1\<rparr> else s1)
      else if i_field = 2 then s\<lparr>field_first := exp_size - 1, field_last := exp_size - 1\<rparr>
      else if i_field = 3 then s\<lparr>field_first := 0, field_last := exp_size - 1\<rparr>
      else if i_field = 4 then s\<lparr>field_first := REG_SIZE - 1, field_last := REG_SIZE - 1\<rparr>
      else if i_field = 5 then s\<lparr>field_first := exp_size, field_last := REG_SIZE - 2\<rparr>
      else if i_field = 6 then s\<lparr>field_first := 0, field_last := REG_SIZE - 1\<rparr>
      else if i_field = 7 then s\<lparr>field_first := exp_size, field_last := REG_SIZE - 1\<rparr>
      else s)"

text \<open>The 32 arithmetic operations, numbered as in the source (there in octal).\<close>

definition arith_op :: "int \<Rightarrow> oprocessor \<Rightarrow> oprocessor option" where
  "arith_op n s =
     (if n = 0 then v_reg_copy (Reg A_REG) None s
      else if n = 1 then v_reg_copy (Reg B_REG) None s
      else if n = 2 then v_reg_exch (Reg A_REG) (Reg B_REG) s
      else if n = 3 then v_reg_copy (Reg B_REG) (Some (Reg A_REG)) s
      else if n = 4 then v_reg_exch (Reg A_REG) (Reg C_REG) s
      else if n = 5 then v_reg_copy (Reg A_REG) (Some (Reg C_REG)) s
      else if n = 6 then v_reg_copy (Reg C_REG) (Some (Reg B_REG)) s
      else if n = 7 then v_reg_exch (Reg B_REG) (Reg C_REG) s
      else if n = 8 then v_reg_copy (Reg C_REG) None s
      else if n = 9 then v_reg_add (Some (Reg A_REG)) (Reg A_REG) (Some (Reg B_REG)) s
      else if n = 10 then v_reg_add (Some (Reg A_REG)) (Reg A_REG) (Some (Reg C_REG)) s
      else if n = 11 then v_reg_add (Some (Reg C_REG)) (Reg C_REG) (Some (Reg C_REG)) s
      else if n = 12 then v_reg_add (Some (Reg C_REG)) (Reg C_REG) (Some (Reg A_REG)) s
      else if n = 13 then v_reg_inc (Reg A_REG) s
      else if n = 14 then v_reg_shl (Reg A_REG) s
      else if n = 15 then v_reg_inc (Reg C_REG) s
      else if n = 16 then v_reg_sub (Some (Reg A_REG)) (Some (Reg A_REG)) (Some (Reg B_REG)) s
      else if n = 17 then v_reg_sub (Some (Reg C_REG)) (Some (Reg A_REG)) (Some (Reg C_REG)) s
      else if n = 18 then
        v_reg_sub (Some (Reg A_REG)) (Some (Reg A_REG)) None (set_flag CARRY 1 s)
      else if n = 19 then
        v_reg_sub (Some (Reg C_REG)) (Some (Reg C_REG)) None (set_flag CARRY 1 s)
      else if n = 20 then v_reg_sub (Some (Reg C_REG)) None (Some (Reg C_REG)) s
      else if n = 21 then
        v_reg_sub (Some (Reg C_REG)) None (Some (Reg C_REG)) (set_flag CARRY 1 s)
      else if n = 22 then
        (case v_reg_test_eq (Reg B_REG) None s of None \<Rightarrow> None | Some s1 \<Rightarrow> then_goto s1)
      else if n = 23 then
        (case v_reg_test_eq (Reg C_REG) None s of None \<Rightarrow> None | Some s1 \<Rightarrow> then_goto s1)
      else if n = 24 then
        (case v_reg_sub None (Some (Reg A_REG)) (Some (Reg C_REG)) s of
           None \<Rightarrow> None | Some s1 \<Rightarrow> then_goto s1)
      else if n = 25 then
        (case v_reg_sub None (Some (Reg A_REG)) (Some (Reg B_REG)) s of
           None \<Rightarrow> None | Some s1 \<Rightarrow> then_goto s1)
      else if n = 26 then
        (case v_reg_test_ne (Reg A_REG) None s of None \<Rightarrow> None | Some s1 \<Rightarrow> then_goto s1)
      else if n = 27 then
        (case v_reg_test_ne (Reg C_REG) None s of None \<Rightarrow> None | Some s1 \<Rightarrow> then_goto s1)
      else if n = 28 then v_reg_sub (Some (Reg A_REG)) (Some (Reg A_REG)) (Some (Reg C_REG)) s
      else if n = 29 then v_reg_shr (Reg A_REG) s
      else if n = 30 then v_reg_shr (Reg B_REG) s
      else if n = 31 then v_reg_shr (Reg C_REG) s
      else Some (v_error Unexpected_error s))"

definition arithmetic :: "int \<Rightarrow> oprocessor \<Rightarrow> oprocessor option" where
  "arithmetic i_opcode s =
     arith_op (drop_bit 5 i_opcode) (decode_field EXP_SIZE (drop_bit 2 i_opcode AND 7) s)"

text \<open>
  The last class switches once more on the two low bits of the opcode, as the source
  does.
\<close>

definition long_branch :: "int \<Rightarrow> oprocessor \<Rightarrow> oprocessor option" where
  "long_branch i_opcode s =
     (let t = i_opcode AND 3 in
      if t = 0 then Some (unexpected_opcode i_opcode s)
      else if t = 1 then Some (unexpected_opcode i_opcode s)
      else if t = 2 then Some (unexpected_opcode i_opcode s)
      else if t = 3 then
        Some (delayed_rom_switch
                (if flags s PREV_CARRY = 0
                 then s\<lparr>pc := ((pc s AND 65280) OR drop_bit 2 i_opcode) - 1\<rparr>
                 else s))
      else Some (v_error Unexpected_error s))"

definition execute :: "int \<Rightarrow> oprocessor \<Rightarrow> oprocessor option" where
  "execute i_opcode s =
     (let c = i_opcode AND 3 in
      if c = 0 then special i_opcode s
      else if c = 1 then op_jsb (drop_bit 2 i_opcode) s
      else if c = 2 then arithmetic i_opcode s
      else long_branch i_opcode s)"

text \<open>
  One tick: the word at the program counter is fetched, decoded and executed, and the
  program counter advances. An instruction is a 10-bit word; a ROM cell that holds
  anything else is outside the instruction format, and the model returns \<open>None\<close> for
  it, as for a program counter outside the ROM.
\<close>

definition v_processor_tick :: "oprocessor \<Rightarrow> oprocessor option" where
  "v_processor_tick s =
     (case rom_read s (pc s) of
        None \<Rightarrow> None
      | Some i_opcode \<Rightarrow>
          if 0 \<le> i_opcode \<and> i_opcode < 1024
          then (case execute i_opcode s of
                  None \<Rightarrow> None
                | Some s1 \<Rightarrow> Some (v_op_inc_pc s1))
          else None)"

section \<open>Concrete states\<close>

definition zero_reg :: "int list" where
  "zero_reg = [0, 0, 0, 0, 0, 0, 0, 0, 0, 0, 0, 0, 0, 0]"

text \<open>A block of memory before \<open>h_processor_create\<close> fills it, with arbitrary contents.\<close>

definition malloc_block :: oprocessor where
  "malloc_block = \<lparr>reg = (\<lambda>r. []), ram = [ [], [] ], rom = (\<lambda>a. 0), stack = [7, 7],
     status = [1, 1, 1, 1, 1, 1, 1, 1, 1, 1, 1, 1, 1, 1, 1, 1],
     flags = (\<lambda>fl. 1), pc = 9, sp = 9, p_reg = 9, f_reg = 9, field_first = 9, field_last = 9,
     base = 9, keycode = 9, keydown = 9, address = 0, rom_number = 9, delayed_rom_number = 9,
     errors = []\<rparr>"

text \<open>The processor as \<open>h_processor_create\<close> returns it (lemma \<open>power_on_created\<close>).\<close>

definition power_on :: "(int \<Rightarrow> int) \<Rightarrow> oprocessor" where
  "power_on h_rom = \<lparr>reg = (\<lambda>r. zero_reg), ram = [zero_reg, zero_reg], rom = h_rom,
     stack = [0, 0], status = [0, 0, 0, 1, 0, 1, 0, 0, 0, 0, 0, 0, 0, 0, 0, 0],
     flags = (\<lambda>fl. 0)(MODE := 1), pc = 0, sp = 0, p_reg = 0, f_reg = 0, field_first = 0,
     field_last = 13, base = 10, keycode = 0, keydown = 0, address = 0, rom_number = 0,
     delayed_rom_number = 0, errors = []\<rparr>"

text \<open>A ROM image given by the words at some addresses, zero (\<open>nop\<close>) elsewhere.\<close>

definition rom_of :: "(int \<times> int) list \<Rightarrow> int \<Rightarrow> int" where
  "rom_of ws a = (case map_of ws a of None \<Rightarrow> 0 | Some w \<Rightarrow> w)"

text \<open>The register C of scenario 2 of the spec, nibble 0 first.\<close>

definition scenario2 :: oprocessor where
  "scenario2 = (power_on (rom_of [(0, 506)]))
     \<lparr>reg := (\<lambda>r. zero_reg)(C_REG := [9, 9, 9, 9, 0, 0, 0, 0, 0, 0, 0, 0, 0, 0])\<rparr>"

definition c_and_carry :: "oprocessor \<Rightarrow> int list \<times> int" where
  "c_and_carry s = (reg s C_REG, flags s CARRY)"

text \<open>Two registers that agree on nibble 0 only, with the window on that nibble.\<close>

definition test_state :: oprocessor where
  "test_state = (power_on (rom_of []))
     \<lparr>reg := (\<lambda>r. zero_reg)(A_REG := [7, 1, 0, 0, 0, 0, 0, 0, 0, 0, 0, 0, 0, 0],
                              B_REG := [7, 2, 0, 0, 0, 0, 0, 0, 0, 0, 0, 0, 0, 0]),
       field_first := 0, field_last := 0\<rparr>"

text \<open>A delayed ROM select pending, and the previous carry set: a branch is not taken.\<close>

definition pending_state :: oprocessor where
  "pending_state = (power_on (rom_of [(3, 7)]))
     \<lparr>flags := (\<lambda>fl. 0)(MODE := 1, DELAYED_ROM := 1, PREV_CARRY := 1), delayed_rom_number := 2,
       pc := 3\<rparr>"

text \<open>The same with the previous carry clear: a branch is taken.\<close>

definition taken_state :: oprocessor where
  "taken_state = (power_on (rom_of [(3, 7)]))
     \<lparr>flags := (\<lambda>fl. 0)(MODE := 1, DELAYED_ROM := 1), delayed_rom_number := 2, pc := 3\<rparr>"

definition pc_and_delayed :: "oprocessor \<Rightarrow> int \<times> int" where
  "pc_and_delayed s = (pc s, flags s DELAYED_ROM)"


text \<open>
  The pointer at \<open>REG_SIZE\<close>: the state one tick after power on when the first
  instruction is \<open>p - 1 \<rightarrow> p\<close> (opcode 400). The next is \<open>a + 1 \<rightarrow> a[wp]\<close> (opcode 422).
\<close>

definition p14_state :: oprocessor where
  "p14_state = (power_on (rom_of [(0, 400), (1, 422)]))\<lparr>p_reg := 14, pc := 1\<rparr>"

definition fault_view :: "oprocessor \<Rightarrow> error_msg list \<times> int list \<times> int" where
  "fault_view s = (errors s, reg s A_REG, pc s)"

definition window :: "oprocessor \<Rightarrow> int \<times> int" where
  "window s = (field_first s, field_last s)"

text \<open>A key held down and every status bit set.\<close>

definition keydown_state :: oprocessor where
  "keydown_state = (power_on (rom_of []))
     \<lparr>keydown := 1, status := [1, 1, 1, 1, 1, 1, 1, 1, 1, 1, 1, 1, 1, 1, 1, 1]\<rparr>"

text \<open>
  Scenario 4 of the spec on page 5: \<open>if 1 = s(4)\<close> (opcode 276) at address 1280, followed
  by the word 291 (hexadecimal 123), with status bit 4 set; and the same with a delayed
  ROM select pending.
\<close>

definition page5_state :: oprocessor where
  "page5_state = (power_on (rom_of [(1280, 276), (1281, 291)]))
     \<lparr>pc := 1280, status := [0, 0, 0, 1, 1, 1, 0, 0, 0, 0, 0, 0, 0, 0, 0, 0]\<rparr>"

definition page5_pending :: oprocessor where
  "page5_pending = page5_state
     \<lparr>flags := (\<lambda>fl. 0)(MODE := 1, DELAYED_ROM := 1), delayed_rom_number := 2\<rparr>"

text \<open>
  The opcodes for which the decoder reaches one of its calls of \<open>v_error\<close> with the
  message "Unexpected opcode": in group 0 the subgroups 1 and 3 outside the opcodes
  they list, in group 2 the subgroup 0 outside the opcodes it lists and the whole of
  the subgroups 2 and 3.
\<close>

definition unexpected :: "int \<Rightarrow> bool" where
  "unexpected x \<longleftrightarrow>
     x AND 3 = 0 \<and>
     (drop_bit 2 x AND 3 = 0 \<and> drop_bit 4 x AND 3 = 1
        \<and> x \<noteq> 16 \<and> x \<noteq> 272 \<and> x \<noteq> 400 \<and> x \<noteq> 464 \<and> x \<noteq> 528
      \<or> drop_bit 2 x AND 3 = 0 \<and> drop_bit 4 x AND 3 = 3
        \<and> x \<noteq> 624 \<and> x \<noteq> 688 \<and> x \<noteq> 1008
      \<or> drop_bit 2 x AND 3 = 2 \<and> drop_bit 4 x AND 3 = 0
        \<and> x \<noteq> 8 \<and> x \<noteq> 72 \<and> x \<noteq> 136 \<and> x \<noteq> 200 \<and> x \<noteq> 264 \<and> x \<noteq> 328 \<and> x \<noteq> 392
        \<and> x \<noteq> 456 \<and> x \<noteq> 520 \<and> x \<noteq> 584 \<and> x \<noteq> 648 \<and> x \<noteq> 712 \<and> x \<noteq> 776 \<and> x \<noteq> 904
        \<and> x \<noteq> 968
      \<or> drop_bit 2 x AND 3 = 2 \<and> (drop_bit 4 x AND 3 = 2 \<or> drop_bit 4 x AND 3 = 3))"

section \<open>The digits of the registers\<close>

text \<open>
  A nibble is a digit of the current base. \<open>digits_ok\<close> says so of every nibble of the
  eight registers and of the data registers; \<open>state_ok\<close> adds what a tick needs to keep
  it: the F register holds a digit, the base is 10 or 16, and the carry is 0 or 1.
\<close>

definition all_regs :: "regname list" where
  "all_regs = [A_REG, B_REG, C_REG, Y_REG, Z_REG, T_REG, M_REG, N_REG]"

definition digit_ok :: "oprocessor \<Rightarrow> int \<Rightarrow> bool" where
  "digit_ok s x \<longleftrightarrow> 0 \<le> x \<and> x < base s"

definition digits_ok :: "oprocessor \<Rightarrow> bool" where
  "digits_ok s \<longleftrightarrow>
     (\<forall>r\<in>set all_regs. \<forall>x\<in>set (reg s r). digit_ok s x)
     \<and> (\<forall>xs\<in>set (ram s). \<forall>x\<in>set xs. digit_ok s x)"

definition state_ok :: "oprocessor \<Rightarrow> bool" where
  "state_ok s \<longleftrightarrow>
     digits_ok s \<and> digit_ok s (f_reg s) \<and> (base s = 10 \<or> base s = 16)
     \<and> (flags s CARRY = 0 \<or> flags s CARRY = 1)"

text \<open>The host calls the tick again and again; \<open>run n\<close> is \<open>n\<close> ticks.\<close>

fun run :: "nat \<Rightarrow> oprocessor \<Rightarrow> oprocessor option" where
  "run 0 s = Some s"
| "run (Suc n) s = (case v_processor_tick s of None \<Rightarrow> None | Some s1 \<Rightarrow> run n s1)"

text \<open>\<open>load 15\<close> (opcode 984) as the first instruction after power on.\<close>

definition load15_state :: oprocessor where
  "load15_state = power_on (rom_of [(0, 984)])"

text \<open>\<open>binary\<close>, \<open>load 12\<close> and \<open>decimal\<close> (opcodes 272, 792 and 776) after power on.\<close>

definition hex_state :: oprocessor where
  "hex_state = power_on (rom_of [(0, 272), (1, 792), (2, 776)])"

text \<open>\<open>load 9\<close> (opcode 600) as the first instruction after power on.\<close>

definition load9_state :: oprocessor where
  "load9_state = power_on (rom_of [(0, 600)])"

section \<open>The layout of the state\<close>

text \<open>
  The layout of the C structure: every register has \<open>REG_SIZE\<close> nibbles, the status
  word has 16 bits, the stack pointer is inside the stack and the pointer is between 0
  and \<open>REG_SIZE\<close>.
\<close>

definition shaped :: "oprocessor \<Rightarrow> bool" where
  "shaped s \<longleftrightarrow>
     (\<forall>r\<in>set all_regs. int (length (reg s r)) = REG_SIZE)
     \<and> (\<forall>xs\<in>set (ram s). int (length xs) = REG_SIZE)
     \<and> length (status s) = 16
     \<and> 0 \<le> sp s \<and> sp s < int (length (stack s))
     \<and> 0 \<le> p_reg s \<and> p_reg s \<le> REG_SIZE"

text \<open>
  What a loop over a window keeps: the layout, the window, the number of data registers
  and the program counter.
\<close>

definition windowed :: "int \<Rightarrow> int \<Rightarrow> nat \<Rightarrow> int \<Rightarrow> oprocessor \<Rightarrow> bool" where
  "windowed a b n c u \<longleftrightarrow>
     shaped u \<and> field_first u = a \<and> field_last u = b \<and> length (ram u) = n \<and> pc u = c"

text \<open>A register pointer into a processor with \<open>n\<close> data registers.\<close>

fun ptr_ok :: "nat \<Rightarrow> regptr \<Rightarrow> bool" where
  "ptr_ok n (Reg r) = True"
| "ptr_ok n (Ram k) = (k < n)"

fun opt_ptr_ok :: "nat \<Rightarrow> regptr option \<Rightarrow> bool" where
  "opt_ptr_ok n None = True"
| "opt_ptr_ok n (Some q) = ptr_ok n q"

text \<open>
  The opcodes of the test instructions, those that the source follows with
  \<open>v_op_inc_pc\<close> and \<open>v_op_goto\<close>: the tests of a status bit and of the pointer (groups
  1 and 3, subgroups 1 and 2) and the arithmetic operations 22 to 27 (octal 26 to 33).
\<close>

definition is_test :: "int \<Rightarrow> bool" where
  "is_test x \<longleftrightarrow>
     x AND 3 = 0 \<and> (drop_bit 2 x AND 3 = 1 \<or> drop_bit 2 x AND 3 = 3)
       \<and> (drop_bit 4 x AND 3 = 1 \<or> drop_bit 4 x AND 3 = 2)
     \<or> x AND 3 = 2 \<and> 22 \<le> drop_bit 5 x \<and> drop_bit 5 x \<le> 27"

text \<open>
  A delayed ROM select of bank 2 pending at address 3, where the ROM has a test of a
  status bit that is set (\<open>if 1 = s(3)\<close>, opcode 212) or one that is clear
  (\<open>if 1 = s(4)\<close>, opcode 276), followed by the word 80.
\<close>

definition test_taken_state :: oprocessor where
  "test_taken_state = (power_on (rom_of [(3, 212), (4, 80)]))
     \<lparr>flags := (\<lambda>fl. 0)(MODE := 1, DELAYED_ROM := 1), delayed_rom_number := 2, pc := 3\<rparr>"

definition test_skipped_state :: oprocessor where
  "test_skipped_state = (power_on (rom_of [(3, 276), (4, 80)]))
     \<lparr>flags := (\<lambda>fl. 0)(MODE := 1, DELAYED_ROM := 1), delayed_rom_number := 2, pc := 3\<rparr>"

text \<open>
  The pointer at \<open>REG_SIZE\<close> (one tick after power on, as \<open>p14_state\<close>) and \<open>load 9\<close>
  (opcode 600) as the next instruction.
\<close>

definition p14_load_state :: oprocessor where
  "p14_load_state = (power_on (rom_of [(0, 400), (1, 600)]))\<lparr>p_reg := 14, pc := 1\<rparr>"

text \<open>\<open>binary\<close> and then \<open>decimal\<close> after power on: the state after the first tick.\<close>

definition binary_state :: oprocessor where
  "binary_state = (power_on (rom_of [(0, 272), (1, 776)]))\<lparr>base := 16, pc := 1\<rparr>"

section \<open>Evaluation\<close>

lemmas access_defs = at_def upd_def get_nibble_def set_nibble_def src_nibble_def dst_nibble_def
  set_flag_def v_error_def field_def whole_word_def REG_SIZE_def EXP_SIZE_def ROM_SIZE_def
  ROM_BANKS_def rom_read_def

lemmas reg_defs = v_reg_copy_def copy_step_def v_reg_exch_def exch_step_def v_reg_add_def
  add_step_def v_reg_sub_def sub_step_def v_reg_test_eq_def v_reg_test_ne_def v_reg_inc_def
  v_reg_shr_def shr_step_def v_reg_shl_def shl_step_def

lemmas tick_defs = v_processor_tick_def execute_def special_def group0_def group1_def
  group2_def group2_sub0_def group3_def arithmetic_def arith_op_def decode_field_def
  long_branch_def op_jsb_def v_op_goto_def then_goto_def v_op_inc_pc_def delayed_rom_switch_def
  unexpected_opcode_def

lemmas state_defs = power_on_def zero_reg_def rom_of_def

lemma word_indices: "[0..13] = [0, 1, 2, 3, 4, 5, 6, 7, 8, 9, 10, 11, 12, 13]"
  by (simp add: upto_rec1)

lemma replicate_14: "replicate 14 x = [x, x, x, x, x, x, x, x, x, x, x, x, x, x]"
  by (simp add: numeral_eq_Suc)

lemma power_on_created: "h_processor_create malloc_block h_rom = Some (power_on h_rom)"
  by (simp add: h_processor_create_def malloc_block_def power_on_def zero_reg_def
      v_processor_init_def v_processor_clear_registers_def v_processor_clear_data_registers_def
      access_defs reg_defs fun_eq_iff word_indices replicate_14)

section \<open>The equality tests\<close>

lemma get_nibble_set_flag [simp]: "get_nibble (set_flag fl v s) r i = get_nibble s r i"
  by (cases r) (simp_all add: get_nibble_def set_flag_def)

lemma src_nibble_set_flag [simp]: "src_nibble (set_flag fl v s) r i = src_nibble s r i"
  by (simp add: src_nibble_def split: option.splits)

lemma field_set_flag [simp]: "field (set_flag fl v s) = field s"
  by (simp add: field_def set_flag_def)

lemma test_loop_result:
  assumes "\<forall>i\<in>set js. get_nibble s d i \<noteq> None \<and> src_nibble s r i \<noteq> None"
  shows "test_loop js c d r s =
           Some (if \<forall>i\<in>set js. get_nibble s d i = src_nibble s r i then s else set_flag CARRY c s)"
  using assms
proof (induction js)
  case Nil
  then show ?case by simp
next
  case (Cons j js)
  then obtain a b where ab: "get_nibble s d j = Some a" "src_nibble s r j = Some b"
    by auto
  show ?case
  proof (cases "a = b")
    case True
    with ab Cons show ?thesis by simp
  next
    case False
    with ab show ?thesis by auto
  qed
qed

lemma get_nibble_in_range:
  assumes "nibbles s d = Some xs" "0 \<le> i" "i < int (length xs)"
  shows "get_nibble s d i = Some (xs ! nat i)"
  using assms by (simp add: get_nibble_def at_def)

text \<open>
  C3. For two registers and a window inside both, \<open>v_reg_test_eq\<close> returns with the
  carry 0 if and only if every nibble of the window is the same in the two registers,
  and with the carry 1 otherwise; \<open>v_reg_test_ne\<close> returns with the carry 0 if and only
  if some nibble of the window differs, and with the carry 1 otherwise.
\<close>

theorem test_eq_ne_carry:
  assumes dst: "nibbles s d = Some xs" and src: "nibbles s r = Some ys"
    and lo: "0 \<le> field_first s"
    and hi: "field_last s < int (length xs)" "field_last s < int (length ys)"
  shows "\<exists>s1 s2. v_reg_test_eq d (Some r) s = Some s1 \<and> v_reg_test_ne d (Some r) s = Some s2
           \<and> (flags s1 CARRY = 0 \<longleftrightarrow> (\<forall>i\<in>{field_first s..field_last s}. xs ! nat i = ys ! nat i))
           \<and> (flags s1 CARRY = 0 \<or> flags s1 CARRY = 1)
           \<and> (flags s2 CARRY = 0 \<longleftrightarrow> (\<exists>i\<in>{field_first s..field_last s}. xs ! nat i \<noteq> ys ! nat i))
           \<and> (flags s2 CARRY = 0 \<or> flags s2 CARRY = 1)"
proof -
  have rd: "\<forall>i\<in>set (field s). get_nibble s d i = Some (xs ! nat i) \<and>
              src_nibble s (Some r) i = Some (ys ! nat i)"
    using dst src lo hi by (auto simp: field_def src_nibble_def get_nibble_in_range)
  have eq: "v_reg_test_eq d (Some r) s =
      Some (if \<forall>i\<in>set (field s). xs ! nat i = ys ! nat i then set_flag CARRY 0 s
            else set_flag CARRY 1 (set_flag CARRY 0 s))"
    unfolding v_reg_test_eq_def using rd by (subst test_loop_result) auto
  have ne: "v_reg_test_ne d (Some r) s =
      Some (if \<forall>i\<in>set (field s). xs ! nat i = ys ! nat i then set_flag CARRY 1 s
            else set_flag CARRY 0 (set_flag CARRY 1 s))"
    unfolding v_reg_test_ne_def using rd by (subst test_loop_result) auto
  have fs: "set (field s) = {field_first s..field_last s}"
    by (simp add: field_def)
  show ?thesis
    unfolding eq ne fs by (auto simp: set_flag_def)
qed

theorem test_eq_ne_carry_witness:
  "nibbles test_state (Reg A_REG) = Some [7, 1, 0, 0, 0, 0, 0, 0, 0, 0, 0, 0, 0, 0]
   \<and> nibbles test_state (Reg B_REG) = Some [7, 2, 0, 0, 0, 0, 0, 0, 0, 0, 0, 0, 0, 0]
   \<and> field_first test_state = 0 \<and> field_last test_state = 0
   \<and> (\<exists>s1 s2. v_reg_test_eq (Reg A_REG) (Some (Reg B_REG)) test_state = Some s1
         \<and> v_reg_test_ne (Reg A_REG) (Some (Reg B_REG)) test_state = Some s2
         \<and> flags s1 CARRY = 0 \<and> flags s2 CARRY = 1)"
  using test_eq_ne_carry [of test_state "Reg A_REG" "[7, 1, 0, 0, 0, 0, 0, 0, 0, 0, 0, 0, 0, 0]"
      "Reg B_REG" "[7, 2, 0, 0, 0, 0, 0, 0, 0, 0, 0, 0, 0, 0]"]
  by (auto simp add: test_state_def state_defs)

section \<open>Scenario 2: incrementing C\<close>

text \<open>
  C8, as the spec states it, fails: from C with nibbles 0 to 3 equal to 9 and the others
  0, in base 10, \<open>c + 1 \<rightarrow> c[w]\<close> (opcode 506) does not leave C all zeros with the
  carry set; the carry stops at nibble 4.
\<close>

theorem scenario2_counterexample:
  "map_option c_and_carry (execute 506 scenario2)
     = Some ([0, 0, 0, 0, 1, 0, 0, 0, 0, 0, 0, 0, 0, 0], 0)
   \<and> map_option c_and_carry (execute 506 scenario2) \<noteq> Some (zero_reg, 1)
   \<and> base scenario2 = 10 \<and> flags scenario2 CARRY = 0"
  by (simp add: scenario2_def c_and_carry_def state_defs tick_defs access_defs reg_defs
      word_indices)

text \<open>
  C8, amended. In base 10, from C with nibbles 0 to 3 equal to 9 and the others 0,
  \<open>c + 1 \<rightarrow> c[w]\<close> leaves C with nibble 4 equal to 1 and all other nibbles 0 (the value
  10000), and the carry clear.
\<close>

theorem scenario2_increment:
  assumes "base s = 10" and "reg s C_REG = [9, 9, 9, 9, 0, 0, 0, 0, 0, 0, 0, 0, 0, 0]"
  shows "\<exists>s'. execute 506 s = Some s'
           \<and> reg s' C_REG = [0, 0, 0, 0, 1, 0, 0, 0, 0, 0, 0, 0, 0, 0] \<and> flags s' CARRY = 0"
  using assms
  by (simp add: tick_defs access_defs reg_defs word_indices)

theorem scenario2_increment_witness:
  "base scenario2 = 10 \<and> reg scenario2 C_REG = [9, 9, 9, 9, 0, 0, 0, 0, 0, 0, 0, 0, 0, 0]
   \<and> (\<exists>s'. execute 506 scenario2 = Some s'
         \<and> reg s' C_REG = [0, 0, 0, 0, 1, 0, 0, 0, 0, 0, 0, 0, 0, 0] \<and> flags s' CARRY = 0)"
  using scenario2_increment [of scenario2]
  by (simp add: scenario2_def state_defs)

section \<open>Opcode fields\<close>

lemma and_3: "(x::int) AND 3 = x mod 4"
  using take_bit_eq_mask [of 2 x] by (simp add: take_bit_eq_mod mask_eq_exp_minus_1)

lemma and_7: "(x::int) AND 7 = x mod 8"
  using take_bit_eq_mask [of 3 x] by (simp add: take_bit_eq_mod mask_eq_exp_minus_1)

lemma and_63: "(x::int) AND 63 = x mod 64"
  using take_bit_eq_mask [of 6 x] by (simp add: take_bit_eq_mod mask_eq_exp_minus_1)

lemma opcode_index:
  assumes "0 \<le> (x::int)" "x < 1024"
  shows "0 \<le> drop_bit 6 x \<and> drop_bit 6 x < 16"
proof -
  have "x div 64 < 16" using assms by linarith
  moreover have "0 \<le> x div 64" using assms by simp
  ultimately show ?thesis by (simp add: drop_bit_eq_div)
qed

section \<open>The pointer tables\<close>

text \<open>
  C5. For every opcode of the special class, \<open>p = n\<close> (group 3, subgroup 3) sets the
  pointer to the entry of the table 14, 4, 7, 8, 11, 2, 10, 12, 1, 3, 13, 6, 0, 9, 5, 14
  at the index held in bits 6 to 9 of the opcode; \<open>if p = n\<close> (group 1, subgroup 2) and
  \<open>if p # n\<close> (group 3, subgroup 2) compare the pointer with the entry of the table
  4, 8, 12, 2, 9, 1, 6, 3, 1, 13, 5, 0, 11, 10, 7, 4 at that index, the first leaving the
  carry clear when they are equal, the second when they differ, and then run the branch
  word.
\<close>

theorem p_tables:
  assumes "0 \<le> i_opcode" "i_opcode < 1024" "i_opcode AND 3 = 0"
  shows "(drop_bit 2 i_opcode AND 3 = 3 \<and> drop_bit 4 i_opcode AND 3 = 3 \<longrightarrow>
            execute i_opcode s =
              Some (s\<lparr>p_reg := [14, 4, 7, 8, 11, 2, 10, 12, 1, 3, 13, 6, 0, 9, 5, 14]
                                  ! nat (drop_bit 6 i_opcode)\<rparr>))
       \<and> (drop_bit 2 i_opcode AND 3 = 1 \<and> drop_bit 4 i_opcode AND 3 = 2 \<longrightarrow>
            execute i_opcode s =
              then_goto (set_flag CARRY
                (if p_reg s = [4, 8, 12, 2, 9, 1, 6, 3, 1, 13, 5, 0, 11, 10, 7, 4]
                                ! nat (drop_bit 6 i_opcode)
                 then 0 else 1) s))
       \<and> (drop_bit 2 i_opcode AND 3 = 3 \<and> drop_bit 4 i_opcode AND 3 = 2 \<longrightarrow>
            execute i_opcode s =
              then_goto (set_flag CARRY
                (if p_reg s = [4, 8, 12, 2, 9, 1, 6, 3, 1, 13, 5, 0, 11, 10, 7, 4]
                                ! nat (drop_bit 6 i_opcode)
                 then 1 else 0) s))"
  using assms(3) opcode_index [OF assms(1,2)]
  by (simp add: execute_def special_def group1_def group3_def at_def i_set_p_def i_tst_p_def)

theorem p_tables_witness:
  "execute 188 (power_on (rom_of [])) = Some ((power_on (rom_of []))\<lparr>p_reg := 7\<rparr>)
   \<and> execute 164 (power_on (rom_of [])) = then_goto (set_flag CARRY 1 (power_on (rom_of [])))
   \<and> execute 748 (power_on (rom_of [])) = then_goto (set_flag CARRY 1 (power_on (rom_of [])))"
  using p_tables [of 188 "power_on (rom_of [])"] p_tables [of 164 "power_on (rom_of [])"]
    p_tables [of 748 "power_on (rom_of [])"]
  by (simp add: power_on_def)

section \<open>The program counter advance\<close>





section \<open>The field window\<close>

text \<open>The pointer reaches \<open>REG_SIZE\<close> one tick after power on.\<close>

lemma p14_reached:
  "v_processor_tick (power_on (rom_of [(0, 400), (1, 422)])) = Some p14_state"
  by (simp add: p14_state_def state_defs tick_defs access_defs fun_eq_iff)

text \<open>
  C1, as the spec states it, fails: with the pointer at 14, field code 0 (P) gives
  \<open>first = 14\<close> and \<open>last = 0\<close>, not the window from p to p.
\<close>

theorem field_window_counterexample:
  "p_reg p14_state = 14
   \<and> window (decode_field EXP_SIZE 0 p14_state) = (14, 0)
   \<and> window (decode_field EXP_SIZE 0 p14_state) \<noteq> (p_reg p14_state, p_reg p14_state)
   \<and> map_option window (execute 2 p14_state) = Some (14, 0)"
  by (simp add: p14_state_def window_def state_defs tick_defs access_defs reg_defs)

text \<open>
  C1, amended. For every opcode of the arithmetic class the operation runs on the state
  in which the decoder has set the window: code 0 gives p to p and code 1 gives 0 to p
  when \<open>p < REG_SIZE\<close>; when \<open>p \<ge> REG_SIZE\<close> code 0 gives \<open>first = p\<close>, \<open>last = 0\<close> and
  code 1 gives 0 to 13; code 2 gives 2 to 2, code 4 gives 13 to 13, code 5 gives 3 to
  12, code 6 gives 0 to 13 and code 7 gives 3 to 13. (Code 3 is left out.)
\<close>

theorem field_window:
  assumes "i_opcode AND 3 = 2" and "drop_bit 2 i_opcode AND 7 = c"
  shows "execute i_opcode s = arith_op (drop_bit 5 i_opcode) (decode_field EXP_SIZE c s)
       \<and> (c = 0 \<and> p_reg s < REG_SIZE \<longrightarrow>
            window (decode_field EXP_SIZE c s) = (p_reg s, p_reg s))
       \<and> (c = 0 \<and> REG_SIZE \<le> p_reg s \<longrightarrow>
            window (decode_field EXP_SIZE c s) = (p_reg s, 0))
       \<and> (c = 1 \<and> p_reg s < REG_SIZE \<longrightarrow>
            window (decode_field EXP_SIZE c s) = (0, p_reg s))
       \<and> (c = 1 \<and> REG_SIZE \<le> p_reg s \<longrightarrow>
            window (decode_field EXP_SIZE c s) = (0, 13))
       \<and> (c = 2 \<longrightarrow> window (decode_field EXP_SIZE c s) = (2, 2))
       \<and> (c = 4 \<longrightarrow> window (decode_field EXP_SIZE c s) = (13, 13))
       \<and> (c = 5 \<longrightarrow> window (decode_field EXP_SIZE c s) = (3, 12))
       \<and> (c = 6 \<longrightarrow> window (decode_field EXP_SIZE c s) = (0, 13))
       \<and> (c = 7 \<longrightarrow> window (decode_field EXP_SIZE c s) = (3, 13))"
  using assms
  by (auto simp add: execute_def arithmetic_def decode_field_def window_def v_error_def
      REG_SIZE_def EXP_SIZE_def)

theorem field_window_witness:
  "window (decode_field EXP_SIZE 0 (power_on (rom_of []))) = (0, 0)
   \<and> window (decode_field EXP_SIZE 0 p14_state) = (14, 0)
   \<and> window (decode_field EXP_SIZE 1 ((power_on (rom_of []))\<lparr>p_reg := 5\<rparr>)) = (0, 5)
   \<and> window (decode_field EXP_SIZE 1 p14_state) = (0, 13)
   \<and> window (decode_field EXP_SIZE 2 (power_on (rom_of []))) = (2, 2)
   \<and> window (decode_field EXP_SIZE 4 (power_on (rom_of []))) = (13, 13)
   \<and> window (decode_field EXP_SIZE 5 (power_on (rom_of []))) = (3, 12)
   \<and> window (decode_field EXP_SIZE 6 (power_on (rom_of []))) = (0, 13)
   \<and> window (decode_field EXP_SIZE 7 (power_on (rom_of []))) = (3, 13)
   \<and> execute 422 p14_state = arith_op 13 (decode_field EXP_SIZE 1 p14_state)"
proof -
  have p: "p_reg (power_on (rom_of [])) < REG_SIZE" "REG_SIZE \<le> p_reg p14_state"
    "p_reg ((power_on (rom_of []))\<lparr>p_reg := 5\<rparr>) < REG_SIZE"
    by (simp_all add: power_on_def p14_state_def REG_SIZE_def)
  have w0: "window (decode_field EXP_SIZE 0 (power_on (rom_of []))) = (0, 0)"
    using field_window [of 2 0 "power_on (rom_of [])"] p by (simp add: power_on_def)
  have w0': "window (decode_field EXP_SIZE 0 p14_state) = (14, 0)"
    using field_window [of 2 0 p14_state] p by (simp add: power_on_def p14_state_def)
  have w1: "window (decode_field EXP_SIZE 1 ((power_on (rom_of []))\<lparr>p_reg := 5\<rparr>)) = (0, 5)"
    using field_window [of 6 1 "(power_on (rom_of []))\<lparr>p_reg := 5\<rparr>"] p by simp
  have w1': "window (decode_field EXP_SIZE 1 p14_state) = (0, 13)
      \<and> execute 422 p14_state = arith_op 13 (decode_field EXP_SIZE 1 p14_state)"
    using field_window [of 422 1 p14_state] p by simp
  have w2: "window (decode_field EXP_SIZE 2 (power_on (rom_of []))) = (2, 2)"
    using field_window [of 10 2 "power_on (rom_of [])"] by simp
  have w4: "window (decode_field EXP_SIZE 4 (power_on (rom_of []))) = (13, 13)"
    using field_window [of 18 4 "power_on (rom_of [])"] by simp
  have w5: "window (decode_field EXP_SIZE 5 (power_on (rom_of []))) = (3, 12)"
    using field_window [of 22 5 "power_on (rom_of [])"] by simp
  have w6: "window (decode_field EXP_SIZE 6 (power_on (rom_of []))) = (0, 13)"
    using field_window [of 26 6 "power_on (rom_of [])"] by simp
  have w7: "window (decode_field EXP_SIZE 7 (power_on (rom_of []))) = (3, 13)"
    using field_window [of 30 7 "power_on (rom_of [])"] by simp
  from w0 w0' w1 w1' w2 w4 w5 w6 w7 show ?thesis by blast
qed

text \<open>
  The windows of XS and X cannot both be as the field table has them, whatever
  \<open>EXP_SIZE\<close> is: XS is the single nibble \<open>EXP_SIZE - 1\<close>, and X ends there.
\<close>

lemma field_window_X_XS:
  "\<not> (window (decode_field e 2 s) = (2, 2) \<and> window (decode_field e 3 s) = (0, 1))"
  by (simp add: decode_field_def window_def)

section \<open>The status word\<close>

lemma clear_status_length: "length (clear_status k bs) = length bs"
  by (induction bs arbitrary: k) simp_all

lemma clear_status_nth:
  "i < length bs \<Longrightarrow>
   clear_status k bs ! i = (if k + i = 1 \<or> k + i = 2 \<or> k + i = 5 \<or> k + i = 15 then bs ! i else 0)"
proof (induction bs arbitrary: k i)
  case Nil
  then show ?case by simp
next
  case (Cons b bs)
  show ?case
  proof (cases i)
    case 0
    then show ?thesis by simp
  next
    case (Suc j)
    with Cons.prems have "j < length bs" by simp
    from Cons.IH [OF this, of "Suc k"] Suc show ?thesis by simp
  qed
qed

text \<open>
  C6, as the spec states it, fails: with a key down, \<open>0 \<rightarrow> s(1)\<close> (opcode 76) clears
  status bit 1.
\<close>

theorem sticky_status_counterexample:
  "keydown keydown_state = 1
   \<and> status keydown_state = [1, 1, 1, 1, 1, 1, 1, 1, 1, 1, 1, 1, 1, 1, 1, 1]
   \<and> map_option status (execute 76 keydown_state)
       = Some [1, 0, 1, 1, 1, 1, 1, 1, 1, 1, 1, 1, 1, 1, 1, 1]"
  by (simp add: keydown_state_def state_defs tick_defs access_defs)

text \<open>
  C6, amended. \<open>clear s\<close> (opcode 72) zeroes every status bit except bits 1, 2, 5 and
  15, which keep their values. While a key is down, \<open>0 \<rightarrow> s(5)\<close> and \<open>0 \<rightarrow> s(15)\<close>
  (opcodes 332 and 972) change nothing; \<open>0 \<rightarrow> s(1)\<close> and \<open>0 \<rightarrow> s(2)\<close> (opcodes 76 and
  140) clear their bit, key down or not, and change nothing else.
\<close>

theorem sticky_status:
  "execute 72 s = Some (s\<lparr>status := clear_status 0 (status s)\<rparr>)
   \<and> length (clear_status 0 (status s)) = length (status s)
   \<and> (\<forall>i. i < length (status s) \<longrightarrow>
         clear_status 0 (status s) ! i
           = (if i = 1 \<or> i = 2 \<or> i = 5 \<or> i = 15 then status s ! i else 0))
   \<and> (keydown s \<noteq> 0 \<longrightarrow> execute 332 s = Some s \<and> execute 972 s = Some s)
   \<and> (1 < length (status s) \<longrightarrow> execute 76 s = Some (s\<lparr>status := (status s)[1 := 0]\<rparr>))
   \<and> (2 < length (status s) \<longrightarrow> execute 140 s = Some (s\<lparr>status := (status s)[2 := 0]\<rparr>))"
  by (simp add: execute_def special_def group2_def group2_sub0_def group3_def upd_def
      clear_status_length clear_status_nth)

theorem sticky_status_witness:
  "execute 72 keydown_state
     = Some (keydown_state\<lparr>status := [0, 1, 1, 0, 0, 1, 0, 0, 0, 0, 0, 0, 0, 0, 0, 1]\<rparr>)
   \<and> execute 332 keydown_state = Some keydown_state
   \<and> execute 972 keydown_state = Some keydown_state
   \<and> execute 76 keydown_state
     = Some (keydown_state\<lparr>status := [1, 0, 1, 1, 1, 1, 1, 1, 1, 1, 1, 1, 1, 1, 1, 1]\<rparr>)
   \<and> execute 140 keydown_state
     = Some (keydown_state\<lparr>status := [1, 1, 0, 1, 1, 1, 1, 1, 1, 1, 1, 1, 1, 1, 1, 1]\<rparr>)"
  using sticky_status [of keydown_state]
  by (simp add: keydown_state_def power_on_def)


section \<open>Scenario 4: a status test and its branch\<close>

text \<open>
  C7, as the spec states it, fails. From page 5 the branch lands on 291 (hexadecimal
  123), so the high bits of the page are not kept; and with a delayed ROM select of
  bank 2 pending it lands on 547 (hexadecimal 223).
\<close>

theorem if_s4_goto_counterexample:
  "at (status page5_state) 4 = Some 1 \<and> rom_read page5_state 1280 = Some 276
   \<and> rom_read page5_state 1281 = Some 291 \<and> pc page5_state = 1280
   \<and> map_option pc (v_processor_tick page5_state) = Some 291
   \<and> (291 :: int) AND 65280 \<noteq> pc page5_state AND 65280
   \<and> at (status page5_pending) 4 = Some 1
   \<and> map_option pc (v_processor_tick page5_pending) = Some 547"
  by (simp add: page5_state_def page5_pending_def state_defs tick_defs access_defs)

text \<open>
  C7, amended. When status bit 4 is 1, no delayed ROM select is pending and the word
  after \<open>if 1 = s(4)\<close> (opcode 276) is 291, the tick leaves the program counter at 291
  from every page: the branch replaces the whole program counter by the word that
  follows the test. Both carries are clear afterwards and nothing else changes.
\<close>

theorem if_s4_goto:
  assumes "rom_read s (pc s) = Some 276" and "at (status s) 4 = Some 1"
    and "pc s < ROM_SIZE - 1" and "rom s (pc s + 1) = 291" and "flags s DELAYED_ROM = 0"
  shows "v_processor_tick s = Some (s\<lparr>pc := 291, flags := (flags s)(PREV_CARRY := 0, CARRY := 0)\<rparr>)"
proof -
  have lo: "0 \<le> pc s"
    using assms(1) by (simp add: rom_read_def split: if_splits)
  have ex: "execute 276 s = then_goto (set_flag CARRY 0 s)"
    using assms(2) by (simp add: execute_def special_def group1_def)
  have nx: "rom_read (v_op_inc_pc (set_flag CARRY 0 s)) (pc s + 1) = Some 291"
    using assms(3,4) lo
    by (simp add: rom_read_def v_op_inc_pc_def set_flag_def ROM_SIZE_def ROM_BANKS_def)
  have tg: "then_goto (set_flag CARRY 0 s)
      = Some (s\<lparr>pc := 290, flags := (flags s)(CARRY := 0, PREV_CARRY := 0)\<rparr>)"
    using assms(3,5) nx
    by (simp add: then_goto_def v_op_goto_def v_op_inc_pc_def set_flag_def rom_read_def
        delayed_rom_switch_def ROM_SIZE_def fun_upd_twist split: if_splits)
  show ?thesis
    using assms(1) ex tg
    by (simp add: v_processor_tick_def v_op_inc_pc_def set_flag_def ROM_SIZE_def fun_upd_twist)
qed

theorem if_s4_goto_witness:
  "rom_read page5_state (pc page5_state) = Some 276 \<and> at (status page5_state) 4 = Some 1
   \<and> pc page5_state < ROM_SIZE - 1 \<and> rom page5_state (pc page5_state + 1) = 291
   \<and> flags page5_state DELAYED_ROM = 0
   \<and> v_processor_tick page5_state
       = Some (page5_state\<lparr>pc := 291, flags := (flags page5_state)(PREV_CARRY := 0, CARRY := 0)\<rparr>)"
  using if_s4_goto [of page5_state]
  by (simp add: page5_state_def state_defs access_defs)

section \<open>Decoder faults\<close>

text \<open>
  C9, as the spec states it, fails: with the pointer at 14, a tick on \<open>a + 1 \<rightarrow> a[wp]\<close>
  (opcode 422) reports an error without opcode or address, and then increments
  register A and advances the program counter.
\<close>

theorem decoder_fault_counterexample:
  "errors p14_state = [] \<and> reg p14_state A_REG = zero_reg \<and> pc p14_state = 1
   \<and> rom_read p14_state 1 = Some 422 \<and> drop_bit 2 (422 :: int) AND 7 = 1
   \<and> map_option fault_view (v_processor_tick p14_state)
       = Some ([Unexpected_error], [1, 0, 0, 0, 0, 0, 0, 0, 0, 0, 0, 0, 0, 0], 2)"
  by (simp add: p14_state_def fault_view_def state_defs tick_defs access_defs reg_defs
      word_indices)

text \<open>
  C9, amended. A tick on an opcode that the decoder does not know reports it with the
  opcode, the ROM number and the program counter, and then only advances the program
  counter (which latches and clears the carry): no register, stack or status changes.
  A tick on an arithmetic opcode with field code 0 or 1 while \<open>p \<ge> REG_SIZE\<close> reports an
  error without opcode or address, sets the window to \<open>first = p\<close>, \<open>last = 0\<close> (code 0)
  or to 0 to 13 (code 1), and runs the operation on it before the advance.
\<close>

theorem decoder_fault:
  assumes "rom_read s (pc s) = Some x" and "0 \<le> x" and "x < 1024"
  shows "(unexpected x \<longrightarrow>
            v_processor_tick s =
              Some (v_op_inc_pc
                      (s\<lparr>errors := errors s @ [Unexpected_opcode x (rom_number s) (pc s)]\<rparr>)))
       \<and> (x AND 3 = 2 \<and> drop_bit 2 x AND 7 = 0 \<and> REG_SIZE \<le> p_reg s \<longrightarrow>
            v_processor_tick s =
              map_option v_op_inc_pc
                (arith_op (drop_bit 5 x)
                   (s\<lparr>field_first := p_reg s, errors := errors s @ [Unexpected_error],
                      field_last := 0\<rparr>)))
       \<and> (x AND 3 = 2 \<and> drop_bit 2 x AND 7 = 1 \<and> REG_SIZE \<le> p_reg s \<longrightarrow>
            v_processor_tick s =
              map_option v_op_inc_pc
                (arith_op (drop_bit 5 x)
                   (s\<lparr>field_first := 0, errors := errors s @ [Unexpected_error],
                      field_last := REG_SIZE - 1\<rparr>)))"
proof -
  have a: "unexpected x \<Longrightarrow> execute x s = Some (unexpected_opcode x s)"
    by (auto simp add: unexpected_def execute_def special_def group0_def group2_def
        group2_sub0_def)
  have b: "x AND 3 = 2 \<Longrightarrow> drop_bit 2 x AND 7 = 0 \<Longrightarrow> REG_SIZE \<le> p_reg s \<Longrightarrow>
      execute x s = arith_op (drop_bit 5 x)
                   (s\<lparr>field_first := p_reg s, errors := errors s @ [Unexpected_error],
                      field_last := 0\<rparr>)"
    by (simp add: execute_def arithmetic_def decode_field_def v_error_def)
  have c: "x AND 3 = 2 \<Longrightarrow> drop_bit 2 x AND 7 = 1 \<Longrightarrow> REG_SIZE \<le> p_reg s \<Longrightarrow>
      execute x s = arith_op (drop_bit 5 x)
                   (s\<lparr>field_first := 0, errors := errors s @ [Unexpected_error],
                      field_last := REG_SIZE - 1\<rparr>)"
    by (simp add: execute_def arithmetic_def decode_field_def v_error_def)
  have t: "v_processor_tick s = map_option v_op_inc_pc (execute x s)"
    using assms by (simp add: v_processor_tick_def split: option.splits)
  show ?thesis
    using a b c unfolding t by (auto simp add: unexpected_opcode_def v_error_def)
qed

theorem decoder_fault_witness:
  "unexpected 80
   \<and> v_processor_tick (power_on (rom_of [(0, 80)]))
       = Some ((power_on (rom_of [(0, 80)]))\<lparr>pc := 1, errors := [Unexpected_opcode 80 0 0]\<rparr>)
   \<and> v_processor_tick p14_state
       = map_option v_op_inc_pc
           (arith_op 13 (p14_state\<lparr>field_first := 0, errors := [Unexpected_error],
                                    field_last := 13\<rparr>))
   \<and> v_processor_tick (p14_state\<lparr>rom := rom_of [(1, 2)]\<rparr>)
       = map_option v_op_inc_pc
           (arith_op 0 (p14_state\<lparr>rom := rom_of [(1, 2)], field_first := 14,
                                   errors := [Unexpected_error], field_last := 0\<rparr>))"
proof -
  have u: "unexpected 80" by (simp add: unexpected_def)
  have a: "v_processor_tick (power_on (rom_of [(0, 80)]))
       = Some ((power_on (rom_of [(0, 80)]))\<lparr>pc := 1, errors := [Unexpected_opcode 80 0 0]\<rparr>)"
    using decoder_fault [of "power_on (rom_of [(0, 80)])" 80] u
    by (simp add: state_defs access_defs v_op_inc_pc_def fun_eq_iff)
  have b: "v_processor_tick p14_state
       = map_option v_op_inc_pc
           (arith_op 13 (p14_state\<lparr>field_first := 0, errors := [Unexpected_error],
                                    field_last := 13\<rparr>))"
    using decoder_fault [of p14_state 422]
    by (simp add: p14_state_def state_defs access_defs)
  have c: "v_processor_tick (p14_state\<lparr>rom := rom_of [(1, 2)]\<rparr>)
       = map_option v_op_inc_pc
           (arith_op 0 (p14_state\<lparr>rom := rom_of [(1, 2)], field_first := 14,
                                   errors := [Unexpected_error], field_last := 0\<rparr>))"
    using decoder_fault [of "p14_state\<lparr>rom := rom_of [(1, 2)]\<rparr>" 2]
    by (simp add: p14_state_def state_defs access_defs)
  from u a b c show ?thesis by blast
qed

section \<open>Digits are kept\<close>

lemma all_regs_complete [simp]: "r \<in> set all_regs"
  by (cases r) (simp_all add: all_regs_def)

lemma state_ok_cong:
  assumes "reg t = reg s" "ram t = ram s" "f_reg t = f_reg s" "base t = base s"
    "flags t CARRY = flags s CARRY"
  shows "state_ok t = state_ok s"
  using assms by (simp add: state_ok_def digits_ok_def digit_ok_def)

lemma state_ok_set_flag:
  "state_ok s \<Longrightarrow> fl = CARRY \<longrightarrow> v = 0 \<or> v = 1 \<Longrightarrow> state_ok (set_flag fl v s)"
  by (auto simp add: state_ok_def digits_ok_def digit_ok_def set_flag_def)

lemma base_set_flag [simp]: "base (set_flag fl v s) = base s"
  by (simp add: set_flag_def)

lemma flags_set_flag [simp]: "flags (set_flag fl v s) = (flags s)(fl := v)"
  by (simp add: set_flag_def)

lemma get_nibble_ok:
  assumes "state_ok s" "get_nibble s r i = Some x"
  shows "digit_ok s x"
proof (cases r)
  case (Reg q)
  with assms(2) have "x \<in> set (reg s q)"
    by (auto simp add: get_nibble_def at_def split: if_splits)
  with assms(1) show ?thesis by (simp add: state_ok_def digits_ok_def)
next
  case (Ram k)
  with assms(2) have "k < length (ram s)" "x \<in> set (ram s ! k)"
    by (auto simp add: get_nibble_def at_def split: if_splits)
  then have "ram s ! k \<in> set (ram s)" "x \<in> set (ram s ! k)" by simp_all
  with assms(1) show ?thesis by (auto simp add: state_ok_def digits_ok_def)
qed

lemma zero_ok: "state_ok s \<Longrightarrow> digit_ok s 0"
  by (auto simp add: state_ok_def digit_ok_def)

lemma src_nibble_ok:
  assumes "state_ok s" "src_nibble s r i = Some x"
  shows "digit_ok s x"
  using assms by (cases r) (auto simp add: src_nibble_def zero_ok get_nibble_ok)

lemma set_nibble_ok:
  assumes ok: "state_ok s" and v: "digit_ok s v" and st: "set_nibble r i v s = Some t"
  shows "state_ok t \<and> base t = base s \<and> flags t = flags s \<and> f_reg t = f_reg s
       \<and> field_first t = field_first s \<and> field_last t = field_last s"
proof (cases r)
  case (Reg q)
  with st have t: "t = s\<lparr>reg := (reg s)(q := (reg s q)[nat i := v])\<rparr>"
    by (auto simp add: set_nibble_def upd_def split: if_splits)
  have "\<forall>x\<in>set ((reg s q)[nat i := v]). digit_ok s x"
    using ok v set_update_subset_insert [of "reg s q" "nat i" v]
    by (auto simp add: state_ok_def digits_ok_def)
  with ok show ?thesis
    unfolding t by (auto simp add: state_ok_def digits_ok_def digit_ok_def)
next
  case (Ram k)
  with st have t: "t = s\<lparr>ram := (ram s)[k := (ram s ! k)[nat i := v]]\<rparr>" and k: "k < length (ram s)"
    by (auto simp add: set_nibble_def upd_def split: if_splits)
  have "ram s ! k \<in> set (ram s)" using k by simp
  then have new: "\<forall>x\<in>set ((ram s ! k)[nat i := v]). digit_ok s x"
    using ok v set_update_subset_insert [of "ram s ! k" "nat i" v]
    by (auto simp add: state_ok_def digits_ok_def)
  have "\<forall>xs\<in>set ((ram s)[k := (ram s ! k)[nat i := v]]). \<forall>x\<in>set xs. digit_ok s x"
  proof
    fix xs assume "xs \<in> set ((ram s)[k := (ram s ! k)[nat i := v]])"
    then have "xs = (ram s ! k)[nat i := v] \<or> xs \<in> set (ram s)"
      using set_update_subset_insert [of "ram s" k "(ram s ! k)[nat i := v]"] by auto
    with new ok show "\<forall>x\<in>set xs. digit_ok s x"
      by (auto simp add: state_ok_def digits_ok_def)
  qed
  with ok show ?thesis
    unfolding t by (auto simp add: state_ok_def digits_ok_def digit_ok_def)
qed

lemma dst_nibble_ok:
  assumes "state_ok s" "digit_ok s v" "dst_nibble r i v s = Some t"
  shows "state_ok t"
  using assms by (cases r) (auto simp add: dst_nibble_def dest: set_nibble_ok)

lemma for_each_preserves:
  assumes step: "\<And>i t t'. P t \<Longrightarrow> body i t = Some t' \<Longrightarrow> P t'"
    and "P s" and "for_each js body s = Some s'"
  shows "P s'"
  using assms(2,3)
proof (induction js arbitrary: s)
  case Nil
  then show ?case by simp
next
  case (Cons j js)
  from Cons.prems(2) obtain s1 where s1: "body j s = Some s1" "for_each js body s1 = Some s'"
    by (auto split: option.splits)
  from step [OF Cons.prems(1) s1(1)] have "P s1" .
  from Cons.IH [OF this s1(2)] show ?case .
qed


lemma bind_SomeD: "Option.bind m g = Some y \<Longrightarrow> \<exists>x. m = Some x \<and> g x = Some y"
  by (cases m) simp_all

lemma copy_step_ok:
  assumes "state_ok s" "copy_step d r i s = Some t"
  shows "state_ok t"
proof -
  from assms(2) obtain x where x: "src_nibble s r i = Some x" "set_nibble d i x s = Some t"
    unfolding copy_step_def by (auto dest!: bind_SomeD)
  from set_nibble_ok [OF assms(1) src_nibble_ok [OF assms(1) x(1)] x(2)] show ?thesis by simp
qed

lemma exch_step_ok:
  assumes "state_ok s" "exch_step d r i s = Some t"
  shows "state_ok t"
proof -
  from assms(2) obtain a b s1 where x: "get_nibble s d i = Some a" "get_nibble s r i = Some b"
      "set_nibble d i b s = Some s1" "set_nibble r i a s1 = Some t"
    unfolding exch_step_def by (auto dest!: bind_SomeD)
  have s1: "state_ok s1" "base s1 = base s"
    using set_nibble_ok [OF assms(1) get_nibble_ok [OF assms(1) x(2)] x(3)] by simp_all
  have "digit_ok s1 a"
    using get_nibble_ok [OF assms(1) x(1)] s1(2) by (simp add: digit_ok_def)
  from set_nibble_ok [OF s1(1) this x(4)] show ?thesis by simp
qed

lemma digit_ok_set_flag [simp]: "digit_ok (set_flag fl v s) x = digit_ok s x"
  by (simp add: digit_ok_def)

lemma add_step_ok:
  assumes "state_ok s" "add_step d r a i s = Some t"
  shows "state_ok t"
proof -
  from assms(2) obtain y x where x: "src_nibble s a i = Some y" "get_nibble s r i = Some x"
    and t: "(if base s \<le> x + y + flags s CARRY
             then dst_nibble d i (x + y + flags s CARRY - base s) (set_flag CARRY 1 s)
             else dst_nibble d i (x + y + flags s CARRY) (set_flag CARRY 0 s)) = Some t"
    unfolding add_step_def by (auto simp add: Let_def dest!: bind_SomeD)
  have r: "0 \<le> x" "x < base s" "0 \<le> y" "y < base s"
    using src_nibble_ok [OF assms(1) x(1)] get_nibble_ok [OF assms(1) x(2)]
    by (simp_all add: digit_ok_def)
  have c: "flags s CARRY = 0 \<or> flags s CARRY = 1"
    using assms(1) by (simp add: state_ok_def)
  show ?thesis
  proof (cases "base s \<le> x + y + flags s CARRY")
    case True
    have "digit_ok (set_flag CARRY 1 s) (x + y + flags s CARRY - base s)"
      using r c True by (auto simp add: digit_ok_def)
    with t True state_ok_set_flag [OF assms(1), of CARRY 1] show ?thesis
      by (auto dest: dst_nibble_ok)
  next
    case False
    have "digit_ok (set_flag CARRY 0 s) (x + y + flags s CARRY)"
      using r c False by (auto simp add: digit_ok_def)
    with t False state_ok_set_flag [OF assms(1), of CARRY 0] show ?thesis
      by (auto dest: dst_nibble_ok)
  qed
qed

lemma sub_step_ok:
  assumes "state_ok s" "sub_step d r a i s = Some t"
  shows "state_ok t"
proof -
  from assms(2) obtain y x where x: "src_nibble s a i = Some y" "src_nibble s r i = Some x"
    and t: "(if x - y - flags s CARRY < 0
             then dst_nibble d i (x - y - flags s CARRY + base s) (set_flag CARRY 1 s)
             else dst_nibble d i (x - y - flags s CARRY) (set_flag CARRY 0 s)) = Some t"
    unfolding sub_step_def by (auto simp add: Let_def dest!: bind_SomeD)
  have r: "0 \<le> x" "x < base s" "0 \<le> y" "y < base s"
    using src_nibble_ok [OF assms(1) x(1)] src_nibble_ok [OF assms(1) x(2)]
    by (simp_all add: digit_ok_def)
  have c: "flags s CARRY = 0 \<or> flags s CARRY = 1"
    using assms(1) by (simp add: state_ok_def)
  show ?thesis
  proof (cases "x - y - flags s CARRY < 0")
    case True
    have "digit_ok (set_flag CARRY 1 s) (x - y - flags s CARRY + base s)"
      using r c True by (auto simp add: digit_ok_def)
    with t True state_ok_set_flag [OF assms(1), of CARRY 1] show ?thesis
      by (auto dest: dst_nibble_ok)
  next
    case False
    have "digit_ok (set_flag CARRY 0 s) (x - y - flags s CARRY)"
      using r c False by (auto simp add: digit_ok_def)
    with t False state_ok_set_flag [OF assms(1), of CARRY 0] show ?thesis
      by (auto dest: dst_nibble_ok)
  qed
qed

lemma shr_step_ok:
  assumes "state_ok s" "shr_step r i s = Some t"
  shows "state_ok t"
proof (cases "i = field_last s")
  case True
  with assms(2) have "set_nibble r i 0 s = Some t" by (simp add: shr_step_def)
  from set_nibble_ok [OF assms(1) zero_ok [OF assms(1)] this] show ?thesis by simp
next
  case False
  with assms(2) obtain x where x: "get_nibble s r (i + 1) = Some x" "set_nibble r i x s = Some t"
    by (auto simp add: shr_step_def dest!: bind_SomeD)
  from set_nibble_ok [OF assms(1) get_nibble_ok [OF assms(1) x(1)] x(2)] show ?thesis by simp
qed

lemma shl_step_ok:
  assumes "state_ok s" "shl_step r i s = Some t"
  shows "state_ok t"
proof (cases "i = field_first s")
  case True
  with assms(2) have "set_nibble r i 0 s = Some t" by (simp add: shl_step_def)
  from set_nibble_ok [OF assms(1) zero_ok [OF assms(1)] this] show ?thesis by simp
next
  case False
  with assms(2) obtain x where x: "get_nibble s r (i - 1) = Some x" "set_nibble r i x s = Some t"
    by (auto simp add: shl_step_def dest!: bind_SomeD)
  from set_nibble_ok [OF assms(1) get_nibble_ok [OF assms(1) x(1)] x(2)] show ?thesis by simp
qed

lemma v_reg_copy_ok: "state_ok s \<Longrightarrow> v_reg_copy d r s = Some t \<Longrightarrow> state_ok t"
  unfolding v_reg_copy_def by (rule for_each_preserves [where P = state_ok]) (auto dest: copy_step_ok)

lemma v_reg_exch_ok: "state_ok s \<Longrightarrow> v_reg_exch d r s = Some t \<Longrightarrow> state_ok t"
  unfolding v_reg_exch_def by (rule for_each_preserves [where P = state_ok]) (auto dest: exch_step_ok)

lemma v_reg_add_ok: "state_ok s \<Longrightarrow> v_reg_add d r a s = Some t \<Longrightarrow> state_ok t"
  unfolding v_reg_add_def by (rule for_each_preserves [where P = state_ok]) (auto dest: add_step_ok)

lemma v_reg_sub_ok: "state_ok s \<Longrightarrow> v_reg_sub d r a s = Some t \<Longrightarrow> state_ok t"
  unfolding v_reg_sub_def by (rule for_each_preserves [where P = state_ok]) (auto dest: sub_step_ok)

lemma v_reg_inc_ok: "state_ok s \<Longrightarrow> v_reg_inc r s = Some t \<Longrightarrow> state_ok t"
  unfolding v_reg_inc_def by (erule v_reg_add_ok [rotated]) (simp add: state_ok_set_flag)

lemma v_reg_shr_ok: "state_ok s \<Longrightarrow> v_reg_shr r s = Some t \<Longrightarrow> state_ok t"
  unfolding v_reg_shr_def
  by (rule for_each_preserves [where P = state_ok and s = "set_flag CARRY 0 s"])
    (auto dest: shr_step_ok simp add: state_ok_set_flag)

lemma v_reg_shl_ok:
  assumes "state_ok s" "v_reg_shl r s = Some t"
  shows "state_ok t"
proof -
  from assms(2) obtain s1 where s1: "for_each (rev (field s)) (shl_step r) s = Some s1"
    and t: "t = set_flag PREV_CARRY 0 (set_flag CARRY 0 s1)"
    by (auto simp add: v_reg_shl_def split: option.splits)
  have "state_ok s1"
    by (rule for_each_preserves [where P = state_ok, OF _ assms(1) s1]) (auto dest: shl_step_ok)
  then show ?thesis unfolding t by (simp add: state_ok_set_flag)
qed

lemma test_loop_ok:
  "state_ok s \<Longrightarrow> c = 0 \<or> c = 1 \<Longrightarrow> test_loop js c d r s = Some t \<Longrightarrow> state_ok t"
  by (induction js) (auto simp add: state_ok_set_flag split: option.splits if_splits)

lemma v_reg_test_eq_ok: "state_ok s \<Longrightarrow> v_reg_test_eq d r s = Some t \<Longrightarrow> state_ok t"
  unfolding v_reg_test_eq_def by (erule test_loop_ok [rotated 2]) (simp_all add: state_ok_set_flag)

lemma v_reg_test_ne_ok: "state_ok s \<Longrightarrow> v_reg_test_ne d r s = Some t \<Longrightarrow> state_ok t"
  unfolding v_reg_test_ne_def by (erule test_loop_ok [rotated 2]) (simp_all add: state_ok_set_flag)


lemma whole_word_ok [simp]: "state_ok (whole_word s) = state_ok s"
  by (rule state_ok_cong) (simp_all add: whole_word_def)

lemma v_op_inc_pc_ok: "state_ok s \<Longrightarrow> state_ok (v_op_inc_pc s)"
  by (auto simp add: v_op_inc_pc_def state_ok_def digits_ok_def digit_ok_def set_flag_def)

lemma delayed_rom_switch_ok: "state_ok s \<Longrightarrow> state_ok (delayed_rom_switch s)"
  by (auto simp add: delayed_rom_switch_def state_ok_def digits_ok_def digit_ok_def set_flag_def)

lemma pc_update_ok [simp]: "state_ok (s\<lparr>pc := a\<rparr>) = state_ok s"
  by (rule state_ok_cong) simp_all

lemma v_op_goto_ok: "state_ok s \<Longrightarrow> v_op_goto s = Some t \<Longrightarrow> state_ok t"
  by (auto simp add: v_op_goto_def delayed_rom_switch_ok split: if_splits option.splits)

lemma then_goto_ok: "state_ok s \<Longrightarrow> then_goto s = Some t \<Longrightarrow> state_ok t"
  unfolding then_goto_def by (erule v_op_goto_ok [rotated]) (rule v_op_inc_pc_ok)

lemma frame_ok [simp]:
  "state_ok (s\<lparr>p_reg := a\<rparr>) = state_ok s"
  "state_ok (s\<lparr>sp := a\<rparr>) = state_ok s"
  "state_ok (s\<lparr>address := a\<rparr>) = state_ok s"
  "state_ok (s\<lparr>status := st\<rparr>) = state_ok s"
  "state_ok (s\<lparr>stack := sk\<rparr>) = state_ok s"
  "state_ok (s\<lparr>delayed_rom_number := a\<rparr>) = state_ok s"
  "state_ok (s\<lparr>errors := es\<rparr>) = state_ok s"
  "state_ok (s\<lparr>field_first := a\<rparr>) = state_ok s"
  "state_ok (s\<lparr>field_last := a\<rparr>) = state_ok s"
  "state_ok (v_error m s) = state_ok s"
  by (rule state_ok_cong; simp add: v_error_def)+

lemma op_jsb_ok: "state_ok s \<Longrightarrow> op_jsb n s = Some t \<Longrightarrow> state_ok t"
  by (auto simp add: op_jsb_def delayed_rom_switch_ok split: option.splits)

lemma long_branch_ok: "state_ok s \<Longrightarrow> long_branch x s = Some t \<Longrightarrow> state_ok t"
  by (auto simp add: long_branch_def Let_def unexpected_opcode_def delayed_rom_switch_ok
      split: if_splits)

lemma unexpected_opcode_ok [simp]: "state_ok (unexpected_opcode x s) = state_ok s"
  by (rule state_ok_cong) (simp_all add: unexpected_opcode_def v_error_def)

lemma v_processor_clear_registers_ok:
  assumes "state_ok s" "v_processor_clear_registers s = Some t"
  shows "state_ok t"
proof -
  from assms(2) obtain s1 where
    s1: "for_each [A_REG, B_REG, C_REG, Y_REG, Z_REG, T_REG, M_REG, N_REG]
           (\<lambda>r. v_reg_copy (Reg r) None) (whole_word s) = Some s1"
    and t: "t = s1\<lparr>stack := map (\<lambda>x. 0) (stack s1)\<rparr>"
    by (auto simp add: v_processor_clear_registers_def split: option.splits)
  have "state_ok s1"
    by (rule for_each_preserves [where P = state_ok, OF _ _ s1])
      (auto dest: v_reg_copy_ok simp add: assms(1))
  then show ?thesis unfolding t by (simp add: state_ok_def digits_ok_def digit_ok_def)
qed

lemma v_processor_clear_data_registers_ok:
  assumes "state_ok s" "v_processor_clear_data_registers s = Some t"
  shows "state_ok t"
  using assms(2) unfolding v_processor_clear_data_registers_def
  by (rule for_each_preserves [where P = state_ok, rotated 2])
    (auto dest: v_reg_copy_ok simp add: assms(1))

lemma binary_ok:
  assumes "state_ok s"
  shows "state_ok (s\<lparr>base := 16\<rparr>)"
proof -
  have m: "digit_ok s x \<Longrightarrow> digit_ok (s\<lparr>base := 16\<rparr>) x" for x
    using assms by (auto simp add: state_ok_def digit_ok_def)
  show ?thesis
    using assms by (simp add: state_ok_def digits_ok_def m)
qed

lemma group0_ok:
  assumes "state_ok s" "group0 x s = Some t"
  shows "state_ok t"
  using assms
  by (auto simp add: group0_def Let_def binary_ok split: if_splits option.splits
      dest: v_processor_clear_data_registers_ok)

lemma group1_ok:
  assumes "state_ok s" "group1 x s = Some t"
  shows "state_ok t"
  using assms
  by (auto simp add: group1_def Let_def state_ok_set_flag split: if_splits option.splits
      dest: then_goto_ok [rotated])

lemma group3_ok:
  assumes "state_ok s" "group3 x s = Some t"
  shows "state_ok t"
  using assms
  by (auto simp add: group3_def Let_def state_ok_set_flag split: if_splits option.splits
      dest: then_goto_ok [rotated])


lemma f_exch_ok:
  assumes "state_ok s" "get_nibble s (Reg A_REG) 0 = Some x"
    "set_nibble (Reg A_REG) 0 (f_reg s) s = Some s1"
  shows "state_ok (s1\<lparr>f_reg := x\<rparr>)"
proof -
  have f: "digit_ok s (f_reg s)" using assms(1) by (simp add: state_ok_def)
  from set_nibble_ok [OF assms(1) f assms(3)] have s1: "state_ok s1" "base s1 = base s"
    by simp_all
  have "digit_ok s1 x"
    using get_nibble_ok [OF assms(1,2)] s1(2) by (simp add: digit_ok_def)
  with s1(1) show ?thesis by (simp add: state_ok_def digits_ok_def digit_ok_def)
qed

lemma f_to_a_ok:
  assumes "state_ok s" "set_nibble (Reg A_REG) 0 (f_reg s) s = Some t"
  shows "state_ok t"
proof -
  have f: "digit_ok s (f_reg s)" using assms(1) by (simp add: state_ok_def)
  from set_nibble_ok [OF assms(1) f assms(2)] show ?thesis by simp
qed

lemma stack_moves_ok:
  assumes "state_ok s"
  shows "v_reg_copy d1 r1 (whole_word s) \<bind> (\<lambda>s1. v_reg_copy d2 r2 s1 \<bind> v_reg_copy d3 r3) = Some t
           \<Longrightarrow> state_ok t"
    and "v_reg_exch e1 q1 (whole_word s) \<bind> (\<lambda>s1. v_reg_exch e2 q2 s1 \<bind> v_reg_exch e3 q3) = Some t
           \<Longrightarrow> state_ok t"
proof -
  have w: "state_ok (whole_word s)" using assms by simp
  {
    assume "v_reg_copy d1 r1 (whole_word s) \<bind> (\<lambda>s1. v_reg_copy d2 r2 s1 \<bind> v_reg_copy d3 r3) = Some t"
    then obtain a b where "v_reg_copy d1 r1 (whole_word s) = Some a" "v_reg_copy d2 r2 a = Some b"
      "v_reg_copy d3 r3 b = Some t"
      by (auto dest!: bind_SomeD)
    then show "state_ok t"
      using v_reg_copy_ok [OF v_reg_copy_ok [OF v_reg_copy_ok [OF w]]] by blast
  }
  {
    assume "v_reg_exch e1 q1 (whole_word s) \<bind> (\<lambda>s1. v_reg_exch e2 q2 s1 \<bind> v_reg_exch e3 q3) = Some t"
    then obtain a b where "v_reg_exch e1 q1 (whole_word s) = Some a" "v_reg_exch e2 q2 a = Some b"
      "v_reg_exch e3 q3 b = Some t"
      by (auto dest!: bind_SomeD)
    then show "state_ok t"
      using v_reg_exch_ok [OF v_reg_exch_ok [OF v_reg_exch_ok [OF w]]] by blast
  }
qed

lemma decimal_ok:
  assumes "state_ok s" "digits_ok (s\<lparr>base := 10\<rparr>)" "f_reg s < 10"
  shows "state_ok (s\<lparr>base := 10\<rparr>)"
  using assms by (simp add: state_ok_def digit_ok_def)

lemma group2_sub0_ok:
  assumes "state_ok s" "group2_sub0 x s = Some t" "x = 776 \<longrightarrow> state_ok (s\<lparr>base := 10\<rparr>)"
  shows "state_ok t"
proof -
  consider "x = 8" | "x = 72" | "x = 136" | "x = 200" | "x = 264" | "x = 328" | "x = 392"
    | "x = 456" | "x = 520" | "x = 584" | "x = 648" | "x = 712" | "x = 776" | "x = 904"
    | "x = 968"
    | "x \<noteq> 8 \<and> x \<noteq> 72 \<and> x \<noteq> 136 \<and> x \<noteq> 200 \<and> x \<noteq> 264 \<and> x \<noteq> 328 \<and> x \<noteq> 392
       \<and> x \<noteq> 456 \<and> x \<noteq> 520 \<and> x \<noteq> 584 \<and> x \<noteq> 648 \<and> x \<noteq> 712 \<and> x \<noteq> 776 \<and> x \<noteq> 904
       \<and> x \<noteq> 968"
    by blast
  then show ?thesis
  proof cases
    case 1
    with assms show ?thesis
      by (auto simp add: group2_sub0_def dest: v_processor_clear_registers_ok)
  next
    case 2
    with assms show ?thesis by (auto simp add: group2_sub0_def)
  next
    case 3
    with assms show ?thesis by (auto simp add: group2_sub0_def state_ok_set_flag)
  next
    case 4
    with assms show ?thesis by (auto simp add: group2_sub0_def state_ok_set_flag)
  next
    case 5
    with assms show ?thesis
      by (auto simp add: group2_sub0_def dest: v_reg_exch_ok [rotated])
  next
    case 6
    with assms show ?thesis
      by (auto simp add: group2_sub0_def dest: v_reg_copy_ok [rotated])
  next
    case 7
    with assms show ?thesis
      by (auto simp add: group2_sub0_def dest: v_reg_exch_ok [rotated])
  next
    case 8
    with assms show ?thesis
      by (auto simp add: group2_sub0_def dest: v_reg_copy_ok [rotated])
  next
    case 9
    with assms(2) stack_moves_ok(1) [OF assms(1)] show ?thesis
      by (simp add: group2_sub0_def)
  next
    case 10
    with assms(2) stack_moves_ok(2) [OF assms(1)] show ?thesis
      by (simp add: group2_sub0_def)
  next
    case 11
    with assms show ?thesis
      by (auto simp add: group2_sub0_def dest: v_reg_copy_ok [rotated])
  next
    case 12
    with assms(2) stack_moves_ok(1) [OF assms(1)] show ?thesis
      by (simp add: group2_sub0_def)
  next
    case 13
    with assms show ?thesis by (auto simp add: group2_sub0_def)
  next
    case 14
    with assms show ?thesis by (auto simp add: group2_sub0_def dest: f_to_a_ok)
  next
    case 15
    with assms show ?thesis
      by (auto simp add: group2_sub0_def split: option.splits dest: f_exch_ok)
  next
    case 16
    with assms show ?thesis by (auto simp add: group2_sub0_def)
  qed
qed

lemma group2_ok:
  assumes "state_ok s" "group2 x s = Some t" "0 \<le> x"
    and "drop_bit 4 x AND 3 = 1 \<longrightarrow> drop_bit 6 x < base s"
    and "x = 776 \<longrightarrow> state_ok (s\<lparr>base := 10\<rparr>)"
  shows "state_ok t"
proof -
  consider "drop_bit 4 x AND 3 = 0" | "drop_bit 4 x AND 3 = 1"
    | "drop_bit 4 x AND 3 \<noteq> 0 \<and> drop_bit 4 x AND 3 \<noteq> 1"
    by blast
  then show ?thesis
  proof cases
    case 1
    with assms(2) have "group2_sub0 x s = Some t" by (simp add: group2_def)
    from group2_sub0_ok [OF assms(1) this assms(5)] show ?thesis .
  next
    case 2
    with assms(2) obtain s1 where s1: "set_nibble (Reg C_REG) (p_reg s) (drop_bit 6 x) s = Some s1"
      and t: "t = s1\<lparr>p_reg := (if p_reg s1 > 0 then p_reg s1 - 1 else REG_SIZE - 1)\<rparr>"
      by (auto simp add: group2_def split: option.splits)
    have "digit_ok s (drop_bit 6 x)"
      using assms(3,4) 2 by (simp add: digit_ok_def)
    from set_nibble_ok [OF assms(1) this s1] show ?thesis unfolding t by simp
  next
    case 3
    with assms(1,2) show ?thesis by (auto simp add: group2_def split: if_splits)
  qed
qed


lemma decode_field_ok [simp]: "state_ok (decode_field e c s) = state_ok s"
  by (rule state_ok_cong) (simp_all add: decode_field_def Let_def v_error_def)

lemma test_then_goto_ok:
  "state_ok s \<Longrightarrow> (case v_reg_test_eq d r s of None \<Rightarrow> None | Some s1 \<Rightarrow> then_goto s1) = Some t
     \<Longrightarrow> state_ok t"
  "state_ok s \<Longrightarrow> (case v_reg_test_ne d r s of None \<Rightarrow> None | Some s1 \<Rightarrow> then_goto s1) = Some t
     \<Longrightarrow> state_ok t"
  "state_ok s \<Longrightarrow> (case v_reg_sub d' r' a' s of None \<Rightarrow> None | Some s1 \<Rightarrow> then_goto s1) = Some t
     \<Longrightarrow> state_ok t"
  by (auto split: option.splits
      dest: then_goto_ok [rotated] v_reg_test_eq_ok v_reg_test_ne_ok v_reg_sub_ok)

lemma arith_op_ok:
  assumes "state_ok s" "arith_op n s = Some t"
  shows "state_ok t"
proof -
  have c1: "state_ok (set_flag CARRY 1 s)"
    using assms(1) by (simp add: state_ok_set_flag)
  note ops = v_reg_copy_ok [OF assms(1)] v_reg_exch_ok [OF assms(1)] v_reg_add_ok [OF assms(1)]
    v_reg_sub_ok [OF assms(1)] v_reg_sub_ok [OF c1] v_reg_inc_ok [OF assms(1)]
    v_reg_shl_ok [OF assms(1)] v_reg_shr_ok [OF assms(1)] test_then_goto_ok [OF assms(1)]
  consider (inside) "n \<in> set [0..31]" | (outside) "n < 0 \<or> 31 < n"
    by (cases "n < 0 \<or> 31 < n") simp_all
  then show ?thesis
  proof cases
    case inside
    then have "n \<in> {0, 1, 2, 3, 4, 5, 6, 7, 8, 9, 10, 11, 12, 13, 14, 15, 16, 17, 18, 19, 20,
        21, 22, 23, 24, 25, 26, 27, 28, 29, 30, 31}"
      by (simp add: upto_rec1)
    with assms(2) ops show ?thesis
      by (elim insertE emptyE) (simp_all add: arith_op_def)
  next
    case outside
    with assms show ?thesis
      by (auto simp add: arith_op_def)
  qed
qed

lemma special_ok:
  assumes "state_ok s" "special x s = Some t" "0 \<le> x"
    and "drop_bit 2 x AND 3 = 2 \<and> drop_bit 4 x AND 3 = 1 \<longrightarrow> drop_bit 6 x < base s"
    and "x = 776 \<longrightarrow> state_ok (s\<lparr>base := 10\<rparr>)"
  shows "state_ok t"
proof -
  consider "drop_bit 2 x AND 3 = 0" | "drop_bit 2 x AND 3 = 1" | "drop_bit 2 x AND 3 = 2"
    | "drop_bit 2 x AND 3 \<noteq> 0 \<and> drop_bit 2 x AND 3 \<noteq> 1 \<and> drop_bit 2 x AND 3 \<noteq> 2"
    by blast
  then show ?thesis
  proof cases
    case 1
    with assms(1,2) show ?thesis by (auto simp add: special_def dest: group0_ok)
  next
    case 2
    with assms(1,2) show ?thesis by (auto simp add: special_def dest: group1_ok)
  next
    case 3
    with assms(2) have "group2 x s = Some t" by (simp add: special_def)
    from group2_ok [OF assms(1) this assms(3)] 3 assms(4,5) show ?thesis by simp
  next
    case 4
    with assms(1,2) show ?thesis by (auto simp add: special_def dest: group3_ok)
  qed
qed

lemma execute_ok:
  assumes "state_ok s" "execute x s = Some t" "0 \<le> x"
    and "\<not> (x AND 3 = 0 \<and> drop_bit 2 x AND 3 = 2 \<and> drop_bit 4 x AND 3 = 1
             \<and> base s \<le> drop_bit 6 x)"
    and "x = 776 \<longrightarrow> state_ok (s\<lparr>base := 10\<rparr>)"
  shows "state_ok t"
proof -
  consider "x AND 3 = 0" | "x AND 3 = 1" | "x AND 3 = 2"
    | "x AND 3 \<noteq> 0 \<and> x AND 3 \<noteq> 1 \<and> x AND 3 \<noteq> 2"
    by blast
  then show ?thesis
  proof cases
    case 1
    with assms(2) have "special x s = Some t" by (simp add: execute_def)
    from special_ok [OF assms(1) this assms(3)] 1 assms(4,5) show ?thesis by auto
  next
    case 2
    with assms(1,2) show ?thesis by (auto simp add: execute_def dest: op_jsb_ok)
  next
    case 3
    with assms(2) have "arith_op (drop_bit 5 x) (decode_field EXP_SIZE (drop_bit 2 x AND 7) s) = Some t"
      by (simp add: execute_def arithmetic_def)
    from arith_op_ok [OF _ this] assms(1) show ?thesis by simp
  next
    case 4
    with assms(1,2) show ?thesis by (auto simp add: execute_def dest: long_branch_ok)
  qed
qed

lemma power_on_ok: "state_ok (power_on h_rom)"
  by (simp add: state_ok_def digits_ok_def digit_ok_def all_regs_def state_defs)

text \<open>
  C4, as the spec states it, fails. After power on, in base 10, \<open>load 15\<close> stores 15 in
  a nibble of C. And after \<open>binary\<close> and \<open>load 12\<close>, which leave every nibble a digit of
  base 16, \<open>decimal\<close> switches to base 10 with the nibble 12 still in C.
\<close>

theorem digits_counterexample:
  "h_processor_create malloc_block (rom_of [(0, 984)]) = Some load15_state
   \<and> digits_ok load15_state
   \<and> map_option digits_ok (v_processor_tick load15_state) = Some False
   \<and> h_processor_create malloc_block (rom_of [(0, 272), (1, 792), (2, 776)]) = Some hex_state
   \<and> map_option digits_ok (run 2 hex_state) = Some True
   \<and> map_option digits_ok (run 3 hex_state) = Some False"
proof -
  have a: "digits_ok load15_state"
    by (simp add: load15_state_def digits_ok_def digit_ok_def all_regs_def state_defs)
  have b: "map_option digits_ok (v_processor_tick load15_state) = Some False"
    by (simp add: load15_state_def digits_ok_def digit_ok_def all_regs_def state_defs tick_defs
        access_defs)
  have c: "map_option digits_ok (run 2 hex_state) = Some True"
    by (simp add: hex_state_def digits_ok_def digit_ok_def all_regs_def state_defs tick_defs
        access_defs numeral_2_eq_2)
  have d: "map_option digits_ok (run 3 hex_state) = Some False"
    by (simp add: hex_state_def digits_ok_def digit_ok_def all_regs_def state_defs tick_defs
        access_defs numeral_3_eq_3)
  show ?thesis
    using a b c d by (simp add: power_on_created load15_state_def hex_state_def)
qed

section \<open>Which opcodes are reported\<close>

lemma errors_set_flag [simp]: "errors (set_flag fl v s) = errors s"
  by (simp add: set_flag_def)

lemma errors_set_nibble: "set_nibble r i v s = Some t \<Longrightarrow> errors t = errors s"
  by (cases r) (auto simp add: set_nibble_def split: option.splits if_splits)

lemma errors_dst_nibble: "dst_nibble r i v s = Some t \<Longrightarrow> errors t = errors s"
  by (cases r) (auto simp add: dst_nibble_def dest!: errors_set_nibble)

lemma errors_steps:
  "copy_step d q i s = Some t \<Longrightarrow> errors t = errors s"
  "exch_step d r i s = Some t \<Longrightarrow> errors t = errors s"
  "add_step d' r a i s = Some t \<Longrightarrow> errors t = errors s"
  "sub_step d' q a i s = Some t \<Longrightarrow> errors t = errors s"
  "shr_step r i s = Some t \<Longrightarrow> errors t = errors s"
  "shl_step r i s = Some t \<Longrightarrow> errors t = errors s"
  by (auto simp add: copy_step_def exch_step_def add_step_def sub_step_def shr_step_def
      shl_step_def Let_def split: if_splits
      dest!: bind_SomeD errors_set_nibble errors_dst_nibble)

lemma errors_for_each:
  assumes "\<And>i u u'. body i u = Some u' \<Longrightarrow> errors u' = errors u"
    and "for_each js body s = Some t"
  shows "errors t = errors s"
  by (rule for_each_preserves [where P = "\<lambda>u. errors u = errors s", OF _ _ assms(2)])
    (auto dest: assms(1))

lemma errors_reg_ops:
  "v_reg_copy d q s = Some t \<Longrightarrow> errors t = errors s"
  "v_reg_exch d r s = Some t \<Longrightarrow> errors t = errors s"
  "v_reg_add d' r a s = Some t \<Longrightarrow> errors t = errors s"
  "v_reg_sub d' q a s = Some t \<Longrightarrow> errors t = errors s"
  "v_reg_inc r s = Some t \<Longrightarrow> errors t = errors s"
  "v_reg_shr r s = Some t \<Longrightarrow> errors t = errors s"
  "v_reg_shl r s = Some t \<Longrightarrow> errors t = errors s"
  unfolding v_reg_copy_def v_reg_exch_def v_reg_add_def v_reg_sub_def v_reg_inc_def
    v_reg_shr_def v_reg_shl_def
  by (auto split: option.splits dest!: errors_for_each [rotated] errors_steps)


lemma errors_test_loop: "test_loop js c d r s = Some t \<Longrightarrow> errors t = errors s"
  by (induction js) (auto split: option.splits if_splits)

lemma errors_tests:
  "v_reg_test_eq d r s = Some t \<Longrightarrow> errors t = errors s"
  "v_reg_test_ne d r s = Some t \<Longrightarrow> errors t = errors s"
  by (auto simp add: v_reg_test_eq_def v_reg_test_ne_def dest!: errors_test_loop)

lemma errors_then_goto: "then_goto s = Some t \<Longrightarrow> errors t = errors s"
  by (auto simp add: then_goto_def v_op_goto_def v_op_inc_pc_def delayed_rom_switch_def
      split: if_splits option.splits)

lemma errors_op_jsb: "op_jsb n s = Some t \<Longrightarrow> errors t = errors s"
  by (auto simp add: op_jsb_def delayed_rom_switch_def split: if_splits option.splits)

lemma errors_whole_word [simp]: "errors (whole_word s) = errors s"
  by (simp add: whole_word_def)

lemma errors_clear_registers: "v_processor_clear_registers s = Some t \<Longrightarrow> errors t = errors s"
  by (auto simp add: v_processor_clear_registers_def split: option.splits
      dest!: errors_for_each [rotated] errors_reg_ops(1))

lemma errors_clear_data_registers:
  "v_processor_clear_data_registers s = Some t \<Longrightarrow> errors t = errors s"
  by (auto simp add: v_processor_clear_data_registers_def
      dest!: errors_for_each [rotated] errors_reg_ops(1))

lemma and_3_cases: "(y::int) AND 3 = 0 \<or> y AND 3 = 1 \<or> y AND 3 = 2 \<or> y AND 3 = 3"
proof -
  have "0 \<le> y mod 4" "y mod 4 < 4" by simp_all
  then show ?thesis unfolding and_3 by linarith
qed

lemma group0_reports:
  assumes "group0 x s = Some t" "Unexpected_opcode a b c \<in> set (errors t)"
    "Unexpected_opcode a b c \<notin> set (errors s)"
  shows "drop_bit 4 x AND 3 = 1 \<and> x \<noteq> 16 \<and> x \<noteq> 272 \<and> x \<noteq> 400 \<and> x \<noteq> 464 \<and> x \<noteq> 528
       \<or> drop_bit 4 x AND 3 = 3 \<and> x \<noteq> 624 \<and> x \<noteq> 688 \<and> x \<noteq> 1008"
  using assms and_3_cases [of "drop_bit 4 x"]
  by (auto simp add: group0_def Let_def v_error_def split: if_splits option.splits
      dest!: errors_clear_data_registers)

lemma group1_reports: "group1 x s = Some t \<Longrightarrow> errors t = errors s"
  by (auto simp add: group1_def Let_def split: if_splits option.splits dest!: errors_then_goto)

lemma group3_reports: "group3 x s = Some t \<Longrightarrow> errors t = errors s"
  by (auto simp add: group3_def Let_def split: if_splits option.splits dest!: errors_then_goto)


lemma errors_bind3:
  "v_reg_copy d1 r1 u \<bind> (\<lambda>s1. v_reg_copy d2 r2 s1 \<bind> v_reg_copy d3 r3) = Some t
     \<Longrightarrow> errors t = errors u"
  "v_reg_exch e1 q1 u \<bind> (\<lambda>s1. v_reg_exch e2 q2 s1 \<bind> v_reg_exch e3 q3) = Some t
     \<Longrightarrow> errors t = errors u"
  by (auto dest!: bind_SomeD errors_reg_ops(1,2))

lemma group2_reports:
  assumes "group2 x s = Some t" "Unexpected_opcode a b c \<in> set (errors t)"
    "Unexpected_opcode a b c \<notin> set (errors s)"
  shows "drop_bit 4 x AND 3 = 0
           \<and> x \<noteq> 8 \<and> x \<noteq> 72 \<and> x \<noteq> 136 \<and> x \<noteq> 200 \<and> x \<noteq> 264 \<and> x \<noteq> 328 \<and> x \<noteq> 392
           \<and> x \<noteq> 456 \<and> x \<noteq> 520 \<and> x \<noteq> 584 \<and> x \<noteq> 648 \<and> x \<noteq> 712 \<and> x \<noteq> 776 \<and> x \<noteq> 904
           \<and> x \<noteq> 968
       \<or> drop_bit 4 x AND 3 = 2 \<or> drop_bit 4 x AND 3 = 3"
proof -
  have sub0: "group2_sub0 x s = Some t \<Longrightarrow>
      x \<noteq> 8 \<and> x \<noteq> 72 \<and> x \<noteq> 136 \<and> x \<noteq> 200 \<and> x \<noteq> 264 \<and> x \<noteq> 328 \<and> x \<noteq> 392
           \<and> x \<noteq> 456 \<and> x \<noteq> 520 \<and> x \<noteq> 584 \<and> x \<noteq> 648 \<and> x \<noteq> 712 \<and> x \<noteq> 776 \<and> x \<noteq> 904
           \<and> x \<noteq> 968"
    using assms(2,3)
    by (auto simp add: group2_sub0_def split: option.splits
        dest!: errors_clear_registers errors_reg_ops(1,2) errors_bind3 errors_set_nibble)
  show ?thesis
    using assms and_3_cases [of "drop_bit 4 x"] sub0
    by (auto simp add: group2_def Let_def split: if_splits option.splits
        dest!: errors_set_nibble)
qed

lemma arith_op_reports:
  assumes "arith_op n s = Some t" "Unexpected_opcode a b c \<in> set (errors t)"
  shows "Unexpected_opcode a b c \<in> set (errors s)"
proof -
  consider (inside) "n \<in> set [0..31]" | (outside) "n < 0 \<or> 31 < n"
    by (cases "n < 0 \<or> 31 < n") simp_all
  then show ?thesis
  proof cases
    case inside
    then have "n \<in> {0, 1, 2, 3, 4, 5, 6, 7, 8, 9, 10, 11, 12, 13, 14, 15, 16, 17, 18, 19, 20,
        21, 22, 23, 24, 25, 26, 27, 28, 29, 30, 31}"
      by (simp add: upto_rec1)
    with assms show ?thesis
      by (elim insertE emptyE)
        (auto simp add: arith_op_def split: option.splits
          dest!: errors_reg_ops errors_tests errors_then_goto)
  next
    case outside
    with assms show ?thesis
      by (auto simp add: arith_op_def v_error_def)
  qed
qed

lemma errors_decode_field:
  "Unexpected_opcode a b c \<in> set (errors (decode_field e k s))
     \<longleftrightarrow> Unexpected_opcode a b c \<in> set (errors s)"
  by (simp add: decode_field_def Let_def v_error_def)

lemma long_branch_reports:
  assumes "long_branch x s = Some t" "x AND 3 = 3"
  shows "errors t = errors s"
  using assms by (auto simp add: long_branch_def delayed_rom_switch_def)

text \<open>
  The converse for the opcodes that the decoder does not know: when the semantic phase of
  an opcode adds the message "Unexpected opcode" to the output, the opcode is one of
  those of \<open>unexpected\<close>.
\<close>

lemma unexpected_only:
  assumes "execute x s = Some t" and "Unexpected_opcode a b c \<in> set (errors t)"
    and "Unexpected_opcode a b c \<notin> set (errors s)"
  shows "unexpected x"
proof -
  consider "x AND 3 = 0" | "x AND 3 = 1" | "x AND 3 = 2" | "x AND 3 = 3"
    using and_3_cases [of x] by blast
  then show ?thesis
  proof cases
    case 1
    note cl = this
    consider "drop_bit 2 x AND 3 = 0" | "drop_bit 2 x AND 3 = 1" | "drop_bit 2 x AND 3 = 2"
      | "drop_bit 2 x AND 3 = 3"
      using and_3_cases [of "drop_bit 2 x"] by blast
    then show ?thesis
    proof cases
      case 1
      with cl assms(1) have "group0 x s = Some t" by (simp add: execute_def special_def)
      from group0_reports [OF this assms(2,3)] cl 1 show ?thesis
        by (simp add: unexpected_def)
    next
      case 2
      with cl assms(1) have "group1 x s = Some t" by (simp add: execute_def special_def)
      from group1_reports [OF this] assms(2,3) show ?thesis by simp
    next
      case 3
      with cl assms(1) have "group2 x s = Some t" by (simp add: execute_def special_def)
      from group2_reports [OF this assms(2,3)] cl 3 show ?thesis
        by (simp add: unexpected_def)
    next
      case 4
      with cl assms(1) have "group3 x s = Some t" by (simp add: execute_def special_def)
      from group3_reports [OF this] assms(2,3) show ?thesis by simp
    qed
  next
    case 2
    with assms(1) have "op_jsb (drop_bit 2 x) s = Some t" by (simp add: execute_def)
    from errors_op_jsb [OF this] assms(2,3) show ?thesis by simp
  next
    case 3
    with assms(1) have "arith_op (drop_bit 5 x) (decode_field EXP_SIZE (drop_bit 2 x AND 7) s) = Some t"
      by (simp add: execute_def arithmetic_def)
    from arith_op_reports [OF this assms(2)] assms(3) show ?thesis
      by (simp add: errors_decode_field)
  next
    case 4
    with assms(1) have "long_branch x s = Some t" by (simp add: execute_def)
    from long_branch_reports [OF this 4] assms(2,3) show ?thesis by simp
  qed
qed

section \<open>Every tick returns\<close>

lemma windowed_set_flag [simp]: "windowed a b n c (set_flag fl v u) = windowed a b n c u"
  by (simp add: windowed_def shaped_def set_flag_def)

lemma get_nibble_total:
  assumes "windowed a b n c u" "ptr_ok n r" "0 \<le> i" "i < REG_SIZE"
  shows "\<exists>x. get_nibble u r i = Some x"
proof (cases r)
  case (Reg q)
  with assms show ?thesis
    by (auto simp add: get_nibble_def at_def windowed_def shaped_def)
next
  case (Ram k)
  with assms have "ram u ! k \<in> set (ram u)" by (simp add: windowed_def)
  with Ram assms show ?thesis
    by (auto simp add: get_nibble_def at_def windowed_def shaped_def)
qed

lemma src_nibble_total:
  assumes "windowed a b n c u" "opt_ptr_ok n r" "0 \<le> i" "i < REG_SIZE"
  shows "\<exists>x. src_nibble u r i = Some x"
  using assms by (cases r) (auto simp add: src_nibble_def dest: get_nibble_total)

lemma set_nibble_total:
  assumes "windowed a b n c u" "ptr_ok n r" "0 \<le> i" "i < REG_SIZE"
  shows "\<exists>u'. set_nibble r i v u = Some u' \<and> windowed a b n c u'"
proof (cases r)
  case (Reg q)
  with assms show ?thesis
    by (auto simp add: set_nibble_def upd_def windowed_def shaped_def)
next
  case (Ram k)
  with assms have k: "k < length (ram u)" "ram u ! k \<in> set (ram u)" by (simp_all add: windowed_def)
  have "\<forall>xs\<in>set ((ram u)[k := (ram u ! k)[nat i := v]]). int (length xs) = REG_SIZE"
  proof
    fix xs assume "xs \<in> set ((ram u)[k := (ram u ! k)[nat i := v]])"
    then have "xs = (ram u ! k)[nat i := v] \<or> xs \<in> set (ram u)"
      using set_update_subset_insert [of "ram u" k "(ram u ! k)[nat i := v]"] by auto
    with assms(1) k show "int (length xs) = REG_SIZE"
      by (auto simp add: windowed_def shaped_def)
  qed
  with Ram assms k show ?thesis
    by (auto simp add: set_nibble_def upd_def windowed_def shaped_def)
qed

lemma dst_nibble_total:
  assumes "windowed a b n c u" "opt_ptr_ok n r" "0 \<le> i" "i < REG_SIZE"
  shows "\<exists>u'. dst_nibble r i v u = Some u' \<and> windowed a b n c u'"
  using assms by (cases r) (auto simp add: dst_nibble_def dest: set_nibble_total)

lemma for_each_total:
  assumes step: "\<And>i u. i \<in> set js \<Longrightarrow> Q u \<Longrightarrow> \<exists>u'. body i u = Some u' \<and> Q u'"
    and "Q s"
  shows "\<exists>t. for_each js body s = Some t \<and> Q t"
  using assms
proof (induction js arbitrary: s)
  case Nil
  then show ?case by simp
next
  case (Cons j js)
  from Cons.prems(1) [of j s] Cons.prems(2) obtain s1 where s1: "body j s = Some s1" "Q s1"
    by auto
  have "\<exists>t. for_each js body s1 = Some t \<and> Q t"
    by (rule Cons.IH) (auto intro: Cons.prems(1) s1(2))
  with s1(1) show ?case by simp
qed


lemma copy_step_total:
  assumes "windowed a b n c u" "ptr_ok n d" "opt_ptr_ok n r" "0 \<le> i" "i < REG_SIZE"
  shows "\<exists>u'. copy_step d r i u = Some u' \<and> windowed a b n c u'"
proof -
  from src_nibble_total [OF assms(1,3,4,5)] obtain x where "src_nibble u r i = Some x" ..
  with set_nibble_total [OF assms(1,2,4,5), of x] show ?thesis
    by (simp add: copy_step_def)
qed

lemma exch_step_total:
  assumes "windowed a b n c u" "ptr_ok n d" "ptr_ok n r" "0 \<le> i" "i < REG_SIZE"
  shows "\<exists>u'. exch_step d r i u = Some u' \<and> windowed a b n c u'"
proof -
  from get_nibble_total [OF assms(1,2,4,5)] obtain x where x: "get_nibble u d i = Some x" ..
  from get_nibble_total [OF assms(1,3,4,5)] obtain y where y: "get_nibble u r i = Some y" ..
  from set_nibble_total [OF assms(1,2,4,5), of y] obtain u1
    where u1: "set_nibble d i y u = Some u1" "windowed a b n c u1" by blast
  from set_nibble_total [OF u1(2) assms(3,4,5), of x] x y u1(1) show ?thesis
    by (simp add: exch_step_def)
qed

lemma add_step_total:
  assumes "windowed a b n c u" "opt_ptr_ok n d" "ptr_ok n r" "opt_ptr_ok n g" "0 \<le> i"
    "i < REG_SIZE"
  shows "\<exists>u'. add_step d r g i u = Some u' \<and> windowed a b n c u'"
proof -
  from src_nibble_total [OF assms(1,4,5,6)] obtain y where y: "src_nibble u g i = Some y" ..
  from get_nibble_total [OF assms(1,3,5,6)] obtain x where x: "get_nibble u r i = Some x" ..
  have w: "windowed a b n c (set_flag CARRY v u)" for v using assms(1) by simp
  show ?thesis
    using x y dst_nibble_total [OF w assms(2,5,6)]
    by (simp add: add_step_def Let_def)
qed

lemma sub_step_total:
  assumes "windowed a b n c u" "opt_ptr_ok n d" "opt_ptr_ok n r" "opt_ptr_ok n g" "0 \<le> i"
    "i < REG_SIZE"
  shows "\<exists>u'. sub_step d r g i u = Some u' \<and> windowed a b n c u'"
proof -
  from src_nibble_total [OF assms(1,4,5,6)] obtain y where y: "src_nibble u g i = Some y" ..
  from src_nibble_total [OF assms(1,3,5,6)] obtain x where x: "src_nibble u r i = Some x" ..
  have w: "windowed a b n c (set_flag CARRY v u)" for v using assms(1) by simp
  show ?thesis
    using x y dst_nibble_total [OF w assms(2,5,6)]
    by (simp add: sub_step_def Let_def)
qed

lemma shr_step_total:
  assumes "windowed a b n c u" "ptr_ok n r" "0 \<le> i" "i \<le> b" "b < REG_SIZE"
  shows "\<exists>u'. shr_step r i u = Some u' \<and> windowed a b n c u'"
proof (cases "i = b")
  case True
  with assms set_nibble_total [OF assms(1,2,3), of 0] show ?thesis
    by (simp add: shr_step_def windowed_def)
next
  case False
  with assms have i: "i < REG_SIZE" "0 \<le> i + 1" "i + 1 < REG_SIZE" "i \<noteq> field_last u"
    by (simp_all add: windowed_def)
  from get_nibble_total [OF assms(1,2) i(2,3)] obtain x
    where "get_nibble u r (i + 1) = Some x" ..
  with set_nibble_total [OF assms(1,2,3) i(1), of x] i(4) show ?thesis
    by (simp add: shr_step_def)
qed

lemma shl_step_total:
  assumes "windowed a b n c u" "ptr_ok n r" "0 \<le> a" "a \<le> i" "i < REG_SIZE"
  shows "\<exists>u'. shl_step r i u = Some u' \<and> windowed a b n c u'"
proof (cases "i = a")
  case True
  with assms set_nibble_total [OF assms(1,2) _ assms(5), of 0] show ?thesis
    by (simp add: shl_step_def windowed_def)
next
  case False
  with assms have i: "0 \<le> i" "0 \<le> i - 1" "i - 1 < REG_SIZE" "i \<noteq> field_first u"
    by (simp_all add: windowed_def)
  from get_nibble_total [OF assms(1,2) i(2,3)] obtain x
    where "get_nibble u r (i - 1) = Some x" ..
  with set_nibble_total [OF assms(1,2) i(1) assms(5), of x] i(4) show ?thesis
    by (simp add: shl_step_def)
qed

lemma field_windowed: "windowed a b n c u \<Longrightarrow> field u = [a..b]"
  by (simp add: field_def windowed_def)

lemma v_reg_copy_total:
  assumes "windowed a b n c u" "0 \<le> a" "b < REG_SIZE" "ptr_ok n d" "opt_ptr_ok n r"
  shows "\<exists>t. v_reg_copy d r u = Some t \<and> windowed a b n c t"
  unfolding v_reg_copy_def field_windowed [OF assms(1)]
  by (rule for_each_total [where Q = "windowed a b n c"])
    (use assms in \<open>auto intro!: copy_step_total\<close>)

lemma v_reg_exch_total:
  assumes "windowed a b n c u" "0 \<le> a" "b < REG_SIZE" "ptr_ok n d" "ptr_ok n r"
  shows "\<exists>t. v_reg_exch d r u = Some t \<and> windowed a b n c t"
  unfolding v_reg_exch_def field_windowed [OF assms(1)]
  by (rule for_each_total [where Q = "windowed a b n c"])
    (use assms in \<open>auto intro!: exch_step_total\<close>)

lemma v_reg_add_total:
  assumes "windowed a b n c u" "0 \<le> a" "b < REG_SIZE" "opt_ptr_ok n d" "ptr_ok n r"
    "opt_ptr_ok n g"
  shows "\<exists>t. v_reg_add d r g u = Some t \<and> windowed a b n c t"
  unfolding v_reg_add_def field_windowed [OF assms(1)]
  by (rule for_each_total [where Q = "windowed a b n c"])
    (use assms in \<open>auto intro!: add_step_total\<close>)

lemma v_reg_sub_total:
  assumes "windowed a b n c u" "0 \<le> a" "b < REG_SIZE" "opt_ptr_ok n d" "opt_ptr_ok n r"
    "opt_ptr_ok n g"
  shows "\<exists>t. v_reg_sub d r g u = Some t \<and> windowed a b n c t"
  unfolding v_reg_sub_def field_windowed [OF assms(1)]
  by (rule for_each_total [where Q = "windowed a b n c"])
    (use assms in \<open>auto intro!: sub_step_total\<close>)

lemma v_reg_inc_total:
  assumes "windowed a b n c u" "0 \<le> a" "b < REG_SIZE" "ptr_ok n r"
  shows "\<exists>t. v_reg_inc r u = Some t \<and> windowed a b n c t"
  unfolding v_reg_inc_def
  by (rule v_reg_add_total) (use assms in simp_all)

lemma v_reg_shr_total:
  assumes "windowed a b n c u" "0 \<le> a" "b < REG_SIZE" "ptr_ok n r"
  shows "\<exists>t. v_reg_shr r u = Some t \<and> windowed a b n c t"
  unfolding v_reg_shr_def field_windowed [OF assms(1)]
  by (rule for_each_total [where Q = "windowed a b n c"])
    (use assms in \<open>auto intro!: shr_step_total\<close>)

lemma v_reg_shl_total:
  assumes "windowed a b n c u" "0 \<le> a" "b < REG_SIZE" "ptr_ok n r"
  shows "\<exists>t. v_reg_shl r u = Some t \<and> windowed a b n c t"
proof -
  have "\<exists>t. for_each (rev [a..b]) (shl_step r) u = Some t \<and> windowed a b n c t"
    by (rule for_each_total [where Q = "windowed a b n c"])
      (use assms in \<open>auto intro!: shl_step_total\<close>)
  then show ?thesis
    by (auto simp add: v_reg_shl_def field_windowed [OF assms(1)])
qed


lemma set_flag_same [simp]: "set_flag fl (flags u fl) u = u"
  by (simp add: set_flag_def)

lemma set_flag_twice [simp]: "set_flag fl v (set_flag fl w u) = set_flag fl v u"
  by (simp add: set_flag_def)

lemma test_result:
  assumes "windowed a b n c u" "0 \<le> a" "b < REG_SIZE" "ptr_ok n d" "opt_ptr_ok n r"
  shows "\<exists>v. v_reg_test_eq d r u = Some (set_flag CARRY v u)"
    and "\<exists>v. v_reg_test_ne d r u = Some (set_flag CARRY v u)"
proof -
  have rd: "\<forall>i\<in>set [a..b]. get_nibble (set_flag CARRY v u) d i \<noteq> None
              \<and> src_nibble (set_flag CARRY v u) r i \<noteq> None" for v
    using assms get_nibble_total [OF assms(1,4)] src_nibble_total [OF assms(1,5)]
    by (auto simp add: Ball_def)
  show "\<exists>v. v_reg_test_eq d r u = Some (set_flag CARRY v u)"
    unfolding v_reg_test_eq_def field_windowed [OF assms(1)]
    by (subst test_loop_result [OF rd]) auto
  show "\<exists>v. v_reg_test_ne d r u = Some (set_flag CARRY v u)"
    unfolding v_reg_test_ne_def field_windowed [OF assms(1)]
    by (subst test_loop_result [OF rd]) auto
qed

lemma compare_loop_result:
  assumes "windowed a b n c u" "opt_ptr_ok n r" "opt_ptr_ok n g"
    and "\<forall>i\<in>set js. 0 \<le> i \<and> i < REG_SIZE"
  shows "\<exists>v. for_each js (sub_step None r g) (set_flag CARRY w u) = Some (set_flag CARRY v u)"
  using assms(4)
proof (induction js arbitrary: w)
  case Nil
  then show ?case by auto
next
  case (Cons j js)
  then have j: "0 \<le> j" "j < REG_SIZE" by simp_all
  from src_nibble_total [OF assms(1,3) j] obtain y where y: "src_nibble u g j = Some y" ..
  from src_nibble_total [OF assms(1,2) j] obtain x where x: "src_nibble u r j = Some x" ..
  have "\<exists>w'. sub_step None r g j (set_flag CARRY w u) = Some (set_flag CARRY w' u)"
    using x y by (auto simp add: sub_step_def Let_def dst_nibble_def)
  then obtain w' where "sub_step None r g j (set_flag CARRY w u) = Some (set_flag CARRY w' u)" ..
  with Cons.IH [of w'] Cons.prems show ?case by simp
qed

lemma compare_result:
  assumes "windowed a b n c u" "0 \<le> a" "b < REG_SIZE" "opt_ptr_ok n r" "opt_ptr_ok n g"
  shows "\<exists>v. v_reg_sub None r g u = Some (set_flag CARRY v u)"
proof -
  have "\<forall>i\<in>set [a..b]. 0 \<le> i \<and> i < REG_SIZE" using assms(2,3) by simp
  from compare_loop_result [OF assms(1,4,5) this, of "flags u CARRY"] show ?thesis
    by (simp add: v_reg_sub_def field_windowed [OF assms(1)])
qed

lemma next_word:
  assumes "- 1 \<le> pc t"
  shows "rom_read (v_op_inc_pc t) (pc (v_op_inc_pc t)) = Some (rom t (pc (v_op_inc_pc t)))"
  using assms
  by (simp add: rom_read_def v_op_inc_pc_def set_flag_def ROM_SIZE_def ROM_BANKS_def)

lemma then_goto_result:
  assumes "- 1 \<le> pc t"
  shows "then_goto t =
    Some (if flags t CARRY = 0
          then delayed_rom_switch ((v_op_inc_pc t)\<lparr>pc := rom t (pc (v_op_inc_pc t)) - 1\<rparr>)
          else v_op_inc_pc t)"
proof -
  have "flags (v_op_inc_pc t) PREV_CARRY = flags t CARRY"
    by (simp add: v_op_inc_pc_def set_flag_def)
  with next_word [OF assms] show ?thesis
    by (simp add: then_goto_def v_op_goto_def)
qed

lemma shaped_cong:
  assumes "reg t = reg s" "ram t = ram s" "status t = status s" "sp t = sp s"
    "stack t = stack s" "p_reg t = p_reg s"
  shows "shaped t = shaped s"
  using assms by (simp add: shaped_def)

lemma shaped_frame [simp]:
  "shaped (s\<lparr>pc := a\<rparr>) = shaped s"
  "shaped (s\<lparr>base := a\<rparr>) = shaped s"
  "shaped (s\<lparr>f_reg := a\<rparr>) = shaped s"
  "shaped (s\<lparr>address := a\<rparr>) = shaped s"
  "shaped (s\<lparr>delayed_rom_number := a\<rparr>) = shaped s"
  "shaped (s\<lparr>errors := es\<rparr>) = shaped s"
  "shaped (s\<lparr>field_first := a\<rparr>) = shaped s"
  "shaped (s\<lparr>field_last := a\<rparr>) = shaped s"
  "shaped (s\<lparr>flags := fs\<rparr>) = shaped s"
  "shaped (set_flag fl v s) = shaped s"
  "shaped (v_error m s) = shaped s"
  "shaped (unexpected_opcode x s) = shaped s"
  "shaped (v_op_inc_pc s) = shaped s"
  "shaped (delayed_rom_switch s) = shaped s"
  "shaped (whole_word s) = shaped s"
  by (rule shaped_cong;
      simp add: set_flag_def v_error_def unexpected_opcode_def v_op_inc_pc_def
        delayed_rom_switch_def whole_word_def)+

lemma then_goto_total:
  assumes "shaped t" "- 1 \<le> pc t"
  shows "\<exists>t'. then_goto t = Some t' \<and> shaped t'"
  using assms by (simp add: then_goto_result)


lemma shaped_windowed:
  "shaped s \<Longrightarrow> windowed (field_first s) (field_last s) (length (ram s)) (pc s) s"
  by (simp add: windowed_def)

lemma whole_word_windowed:
  "shaped s \<Longrightarrow> windowed 0 (REG_SIZE - 1) (length (ram s)) (pc s) (whole_word s)"
  by (simp add: windowed_def) (simp add: whole_word_def)

lemma windowed_shaped: "windowed a b n c u \<Longrightarrow> shaped u"
  by (simp add: windowed_def)

lemma v_processor_clear_registers_total:
  assumes "shaped s"
  shows "\<exists>t. v_processor_clear_registers s = Some t \<and> shaped t"
proof -
  let ?Q = "windowed 0 (REG_SIZE - 1) (length (ram s)) (pc s)"
  have "\<exists>t. for_each [A_REG, B_REG, C_REG, Y_REG, Z_REG, T_REG, M_REG, N_REG]
              (\<lambda>r. v_reg_copy (Reg r) None) (whole_word s) = Some t \<and> ?Q t"
    by (rule for_each_total [where Q = ?Q])
      (auto intro!: v_reg_copy_total whole_word_windowed [OF assms])
  then obtain t where t: "for_each [A_REG, B_REG, C_REG, Y_REG, Z_REG, T_REG, M_REG, N_REG]
              (\<lambda>r. v_reg_copy (Reg r) None) (whole_word s) = Some t" "shaped t"
    by (auto dest: windowed_shaped)
  from t(2) have "shaped (t\<lparr>stack := map (\<lambda>x. 0) (stack t)\<rparr>)"
    by (simp add: shaped_def)
  with t(1) show ?thesis by (simp add: v_processor_clear_registers_def)
qed

lemma v_processor_clear_data_registers_total:
  assumes "shaped s"
  shows "\<exists>t. v_processor_clear_data_registers s = Some t \<and> shaped t"
proof -
  let ?Q = "windowed 0 (REG_SIZE - 1) (length (ram s)) (pc s)"
  have "\<exists>t. for_each [0..<length (ram s)] (\<lambda>k. v_reg_copy (Ram k) None) (whole_word s) = Some t
          \<and> ?Q t"
    by (rule for_each_total [where Q = ?Q])
      (auto intro!: v_reg_copy_total whole_word_windowed [OF assms])
  then show ?thesis
    by (auto simp add: v_processor_clear_data_registers_def dest: windowed_shaped)
qed

lemma stack_index:
  assumes "0 \<le> a" "a < int (length xs)"
  shows "0 \<le> b AND (int (length xs) - 1) \<and> b AND (int (length xs) - 1) < int (length xs)"
proof -
  have m: "0 \<le> int (length xs) - 1" using assms by linarith
  from AND_upper2 [OF m, of b] have "b AND (int (length xs) - 1) \<le> int (length xs) - 1" .
  with m show ?thesis by simp
qed

lemma group0_total:
  assumes "shaped s"
  shows "\<exists>t. group0 x s = Some t \<and> shaped t"
proof -
  have sk: "0 \<le> (sp s - 1) AND (int (length (stack s)) - 1)
      \<and> (sp s - 1) AND (int (length (stack s)) - 1) < int (length (stack s))"
    using assms by (intro stack_index [of "sp s"]) (simp_all add: shaped_def)
  have ret: "\<exists>a. at (stack s) ((sp s - 1) AND (int (length (stack s)) - 1)) = Some a"
    using sk by (simp add: at_def)
  have rs: "shaped (s\<lparr>sp := (sp s - 1) AND (int (length (stack s)) - 1), pc := a\<rparr>)" for a
    using assms sk by (simp add: shaped_def)
  have p1: "shaped (s\<lparr>p_reg := (if p_reg s = 0 then REG_SIZE else p_reg s - 1)\<rparr>)"
    using assms by (simp add: shaped_def REG_SIZE_def)
  have p2: "shaped (s\<lparr>p_reg := (if p_reg s = REG_SIZE then 0 else p_reg s + 1)\<rparr>)"
    using assms by (simp add: shaped_def REG_SIZE_def)
  have w: "windowed (field_first s) (field_last s) (length (ram s)) (pc s) s"
    using assms by (rule shaped_windowed)
  have c1: "\<exists>v. get_nibble s (Reg C_REG) 1 = Some v"
    by (rule get_nibble_total [OF w]) (simp_all add: REG_SIZE_def)
  have c0: "\<exists>v. get_nibble s (Reg C_REG) 0 = Some v"
    by (rule get_nibble_total [OF w]) (simp_all add: REG_SIZE_def)
  show ?thesis
    using assms ret rs p1 p2 c1 c0 v_processor_clear_data_registers_total [OF assms]
    by (auto simp add: group0_def Let_def)
qed

lemma status_index:
  assumes "shaped s" "0 \<le> x" "x < 1024"
  shows "\<exists>b. at (status s) (drop_bit 6 x) = Some b"
    and "\<exists>st. upd (status s) (drop_bit 6 x) v = Some st \<and> length st = 16"
  using assms opcode_index [OF assms(2,3)] by (simp_all add: at_def upd_def shaped_def)

lemma shaped_status: "shaped s \<Longrightarrow> length st = 16 \<Longrightarrow> shaped (s\<lparr>status := st\<rparr>)"
  by (simp add: shaped_def)

lemma table_index:
  assumes "0 \<le> x" "x < 1024"
  shows "\<exists>t. at i_tst_p (drop_bit 6 x) = Some t"
    and "\<exists>t. at i_set_p (drop_bit 6 x) = Some t \<and> 0 \<le> t \<and> t \<le> REG_SIZE"
proof -
  from opcode_index [OF assms] have k: "0 \<le> drop_bit 6 x" "drop_bit 6 x < 16" by simp_all
  then show "\<exists>t. at i_tst_p (drop_bit 6 x) = Some t" by (simp add: at_def i_tst_p_def)
  have len: "length i_set_p = 16" by (simp add: i_set_p_def)
  have every: "\<forall>t\<in>set i_set_p. 0 \<le> t \<and> t \<le> REG_SIZE"
    by (simp add: i_set_p_def REG_SIZE_def)
  have "nat (drop_bit 6 x) < length i_set_p" using k len by simp
  then have "i_set_p ! nat (drop_bit 6 x) \<in> set i_set_p" by (rule nth_mem)
  with every have "0 \<le> i_set_p ! nat (drop_bit 6 x) \<and> i_set_p ! nat (drop_bit 6 x) \<le> REG_SIZE"
    by blast
  then show "\<exists>t. at i_set_p (drop_bit 6 x) = Some t \<and> 0 \<le> t \<and> t \<le> REG_SIZE"
    using k len by (simp add: at_def)
qed

lemma group1_total:
  assumes "shaped s" "0 \<le> x" "x < 1024" "- 1 \<le> pc s"
  shows "\<exists>t. group1 x s = Some t \<and> shaped t"
proof -
  have tg: "\<exists>t. then_goto (set_flag CARRY v s) = Some t \<and> shaped t" for v
    using assms(1,4) by (intro then_goto_total) (simp_all add: set_flag_def)
  show ?thesis
    using assms(1) status_index(1) [OF assms(1,2,3)] status_index(2) [OF assms(1,2,3), of 1]
      table_index(1) [OF assms(2,3)] tg [of 0] tg [of 1]
    by (auto simp add: group1_def Let_def shaped_status)
qed

lemma group3_total:
  assumes "shaped s" "0 \<le> x" "x < 1024" "- 1 \<le> pc s"
  shows "\<exists>t. group3 x s = Some t \<and> shaped t"
proof -
  have tg: "\<exists>t. then_goto (set_flag CARRY v s) = Some t \<and> shaped t" for v
    using assms(1,4) by (intro then_goto_total) (simp_all add: set_flag_def)
  have s15: "\<exists>st. upd (status s) 15 0 = Some st \<and> length st = 16"
    using assms(1) by (simp add: upd_def shaped_def)
  have pt: "shaped (s\<lparr>p_reg := t\<rparr>)" if "0 \<le> t" "t \<le> REG_SIZE" for t
    using assms(1) that by (simp add: shaped_def)
  show ?thesis
    using assms(1) status_index(1) [OF assms(1,2,3)] status_index(2) [OF assms(1,2,3), of 0]
      table_index [OF assms(2,3)] tg [of 0] tg [of 1] s15 pt
    by (auto simp add: group3_def Let_def shaped_status)
qed


lemma word_copy_total:
  assumes "shaped s" "opt_ptr_ok (length (ram s)) r"
  shows "\<exists>t. v_reg_copy (Reg d) r (whole_word s) = Some t \<and> shaped t"
  using v_reg_copy_total [OF whole_word_windowed [OF assms(1)], of "Reg d" r] assms(2)
  by (auto simp add: REG_SIZE_def dest: windowed_shaped)

lemma word_exch_total:
  assumes "shaped s"
  shows "\<exists>t. v_reg_exch (Reg d) (Reg r) (whole_word s) = Some t \<and> shaped t"
  using v_reg_exch_total [OF whole_word_windowed [OF assms(1)], of "Reg d" "Reg r"]
  by (auto simp add: REG_SIZE_def dest: windowed_shaped)

lemma three_copies_total:
  assumes "shaped s"
  shows "\<exists>t. v_reg_copy (Reg d1) (Some (Reg r1)) (whole_word s)
              \<bind> (\<lambda>s1. v_reg_copy (Reg d2) (Some (Reg r2)) s1
                     \<bind> v_reg_copy (Reg d3) (Some (Reg r3))) = Some t \<and> shaped t"
proof -
  let ?Q = "windowed 0 (REG_SIZE - 1) (length (ram s)) (pc s)"
  have b: "(0::int) \<le> 0" "REG_SIZE - 1 < REG_SIZE" by simp_all
  from v_reg_copy_total [OF whole_word_windowed [OF assms] b, of "Reg d1" "Some (Reg r1)"]
  obtain t1 where t1: "v_reg_copy (Reg d1) (Some (Reg r1)) (whole_word s) = Some t1" "?Q t1"
    by auto
  from v_reg_copy_total [OF t1(2) b, of "Reg d2" "Some (Reg r2)"]
  obtain t2 where t2: "v_reg_copy (Reg d2) (Some (Reg r2)) t1 = Some t2" "?Q t2"
    by auto
  from v_reg_copy_total [OF t2(2) b, of "Reg d3" "Some (Reg r3)"]
  obtain t3 where t3: "v_reg_copy (Reg d3) (Some (Reg r3)) t2 = Some t3" "?Q t3"
    by auto
  from t1 t2 t3 show ?thesis by (auto dest: windowed_shaped)
qed

lemma three_exchanges_total:
  assumes "shaped s"
  shows "\<exists>t. v_reg_exch (Reg d1) (Reg r1) (whole_word s)
              \<bind> (\<lambda>s1. v_reg_exch (Reg d2) (Reg r2) s1
                     \<bind> v_reg_exch (Reg d3) (Reg r3)) = Some t \<and> shaped t"
proof -
  let ?Q = "windowed 0 (REG_SIZE - 1) (length (ram s)) (pc s)"
  have b: "(0::int) \<le> 0" "REG_SIZE - 1 < REG_SIZE" by simp_all
  from v_reg_exch_total [OF whole_word_windowed [OF assms] b, of "Reg d1" "Reg r1"]
  obtain t1 where t1: "v_reg_exch (Reg d1) (Reg r1) (whole_word s) = Some t1" "?Q t1"
    by auto
  from v_reg_exch_total [OF t1(2) b, of "Reg d2" "Reg r2"]
  obtain t2 where t2: "v_reg_exch (Reg d2) (Reg r2) t1 = Some t2" "?Q t2"
    by auto
  from v_reg_exch_total [OF t2(2) b, of "Reg d3" "Reg r3"]
  obtain t3 where t3: "v_reg_exch (Reg d3) (Reg r3) t2 = Some t3" "?Q t3"
    by auto
  from t1 t2 t3 show ?thesis by (auto dest: windowed_shaped)
qed

lemma low_nibble_total:
  assumes "shaped s"
  shows "\<exists>v. get_nibble s (Reg A_REG) 0 = Some v"
    and "\<exists>t. set_nibble (Reg A_REG) 0 v s = Some t \<and> shaped t"
proof -
  have w: "windowed (field_first s) (field_last s) (length (ram s)) (pc s) s"
    using assms by (rule shaped_windowed)
  show "\<exists>v. get_nibble s (Reg A_REG) 0 = Some v"
    by (rule get_nibble_total [OF w]) (simp_all add: REG_SIZE_def)
  from set_nibble_total [OF w, of "Reg A_REG" 0 v]
  show "\<exists>t. set_nibble (Reg A_REG) 0 v s = Some t \<and> shaped t"
    by (auto simp add: REG_SIZE_def dest: windowed_shaped)
qed

lemma group2_sub0_total:
  assumes "shaped s"
  shows "\<exists>t. group2_sub0 x s = Some t \<and> shaped t"
proof -
  have st: "shaped (s\<lparr>status := clear_status 0 (status s)\<rparr>)"
    using assms by (simp add: shaped_def clear_status_length)
  have fx: "\<exists>t. (case get_nibble s (Reg A_REG) 0 of
              None \<Rightarrow> None
            | Some i_temp \<Rightarrow>
                (case set_nibble (Reg A_REG) 0 (f_reg s) s of
                   None \<Rightarrow> None
                 | Some s1 \<Rightarrow> Some (s1\<lparr>f_reg := i_temp\<rparr>))) = Some t \<and> shaped t"
    using low_nibble_total(1) [OF assms] low_nibble_total(2) [OF assms, of "f_reg s"]
    by auto
  show ?thesis
    using assms st fx v_processor_clear_registers_total [OF assms]
      word_exch_total [OF assms] word_copy_total [OF assms]
      three_copies_total [OF assms] three_exchanges_total [OF assms]
      low_nibble_total(2) [OF assms]
    by (simp add: group2_sub0_def)
qed

lemma group2_total:
  assumes "shaped s" "drop_bit 4 x AND 3 = 1 \<longrightarrow> p_reg s < REG_SIZE"
  shows "\<exists>t. group2 x s = Some t \<and> shaped t"
proof (cases "drop_bit 4 x AND 3 = 1")
  case True
  have w: "windowed (field_first s) (field_last s) (length (ram s)) (pc s) s"
    using assms(1) by (rule shaped_windowed)
  have p: "0 \<le> p_reg s" "p_reg s < REG_SIZE"
    using assms True by (simp_all add: shaped_def)
  from set_nibble_total [OF w _ p, of "Reg C_REG" "drop_bit 6 x"]
  obtain s1 where s1: "set_nibble (Reg C_REG) (p_reg s) (drop_bit 6 x) s = Some s1" "shaped s1"
    by (auto dest: windowed_shaped)
  have "shaped (s1\<lparr>p_reg := (if p_reg s1 > 0 then p_reg s1 - 1 else REG_SIZE - 1)\<rparr>)"
    using s1(2) by (simp add: shaped_def REG_SIZE_def)
  with True s1(1) show ?thesis by (simp add: group2_def)
next
  case False
  with assms(1) group2_sub0_total [OF assms(1), of x] show ?thesis
    by (simp add: group2_def Let_def)
qed

lemma op_jsb_total:
  assumes "shaped s"
  shows "\<exists>t. op_jsb k s = Some t \<and> shaped t"
proof -
  have i: "0 \<le> sp s" "sp s < int (length (stack s))" using assms by (simp_all add: shaped_def)
  have sk: "0 \<le> (sp s + 1) AND (int (length (stack s)) - 1)
      \<and> (sp s + 1) AND (int (length (stack s)) - 1) < int (length (stack s))"
    by (rule stack_index [OF i])
  have "shaped (s\<lparr>stack := (stack s)[nat (sp s) := pc s],
                  sp := (sp s + 1) AND (int (length (stack s)) - 1), pc := a\<rparr>)" for a
    using assms sk by (simp add: shaped_def)
  with i show ?thesis by (simp add: op_jsb_def upd_def)
qed

lemma long_branch_total:
  assumes "shaped s"
  shows "\<exists>t. long_branch x s = Some t \<and> shaped t"
  using assms by (simp add: long_branch_def Let_def)


lemma and_7_cases: "(y::int) AND 7 \<in> {0, 1, 2, 3, 4, 5, 6, 7}"
proof -
  have "0 \<le> y mod 8" "y mod 8 < 8" by simp_all
  then have "y mod 8 \<in> set [0..7]" by simp
  then show ?thesis unfolding and_7 by (simp add: upto_rec1)
qed

lemma decode_field_frame:
  "pc (decode_field e k s) = pc s" "rom (decode_field e k s) = rom s"
  "flags (decode_field e k s) = flags s"
  "delayed_rom_number (decode_field e k s) = delayed_rom_number s"
  "ram (decode_field e k s) = ram s" "shaped (decode_field e k s) = shaped s"
  by (simp_all add: decode_field_def Let_def v_error_def)

lemma decode_window:
  assumes "shaped s"
  shows "\<exists>a b. windowed a b (length (ram s)) (pc s) (decode_field EXP_SIZE (y AND 7) s)
           \<and> 0 \<le> a \<and> b < REG_SIZE"
proof -
  have p: "0 \<le> p_reg s" using assms by (simp add: shaped_def)
  have "0 \<le> field_first (decode_field EXP_SIZE (y AND 7) s)
      \<and> field_last (decode_field EXP_SIZE (y AND 7) s) < REG_SIZE"
    using and_7_cases [of y] p
    by (elim insertE emptyE)
      (simp_all add: decode_field_def Let_def v_error_def REG_SIZE_def EXP_SIZE_def)
  with assms show ?thesis
    by (simp add: windowed_def decode_field_frame)
qed

lemma arith_test_result:
  assumes "windowed a b n c u" "0 \<le> a" "b < REG_SIZE" "22 \<le> m" "m \<le> 27"
  shows "\<exists>v. arith_op m u = then_goto (set_flag CARRY v u)"
proof -
  have "m = 22 \<or> m = 23 \<or> m = 24 \<or> m = 25 \<or> m = 26 \<or> m = 27"
    using assms(4,5) by presburger
  then have m: "m \<in> {22, 23, 24, 25, 26, 27}" by simp
  have e: "\<exists>v. v_reg_test_eq (Reg d) None u = Some (set_flag CARRY v u)" for d
    by (rule test_result(1) [OF assms(1,2,3)]) simp_all
  have ne: "\<exists>v. v_reg_test_ne (Reg d) None u = Some (set_flag CARRY v u)" for d
    by (rule test_result(2) [OF assms(1,2,3)]) simp_all
  have ge: "\<exists>v. v_reg_sub None (Some (Reg d)) (Some (Reg r)) u = Some (set_flag CARRY v u)" for d r
    by (rule compare_result [OF assms(1,2,3)]) simp_all
  from m show ?thesis
  proof (elim insertE emptyE)
    assume "m = 22"
    with e [of B_REG] show ?thesis by (auto simp add: arith_op_def)
  next
    assume "m = 23"
    with e [of C_REG] show ?thesis by (auto simp add: arith_op_def)
  next
    assume "m = 24"
    with ge [of A_REG C_REG] show ?thesis by (auto simp add: arith_op_def)
  next
    assume "m = 25"
    with ge [of A_REG B_REG] show ?thesis by (auto simp add: arith_op_def)
  next
    assume "m = 26"
    with ne [of A_REG] show ?thesis by (auto simp add: arith_op_def)
  next
    assume "m = 27"
    with ne [of C_REG] show ?thesis by (auto simp add: arith_op_def)
  qed
qed

lemma arith_op_total:
  assumes "windowed a b n c u" "0 \<le> a" "b < REG_SIZE" "- 1 \<le> c"
  shows "\<exists>t. arith_op m u = Some t \<and> shaped t"
proof -
  have sh: "shaped u" using assms(1) by (rule windowed_shaped)
  have w1: "windowed a b n c (set_flag CARRY 1 u)" using assms(1) by simp
  note w = assms(1,2,3)
  have cp: "\<exists>t. v_reg_copy (Reg d) r u = Some t \<and> shaped t" if "opt_ptr_ok n r" for d r
    using v_reg_copy_total [OF w, of "Reg d" r] that by (auto dest: windowed_shaped)
  have ex: "\<exists>t. v_reg_exch (Reg d) (Reg r) u = Some t \<and> shaped t" for d r
    using v_reg_exch_total [OF w, of "Reg d" "Reg r"] by (auto dest: windowed_shaped)
  have ad: "\<exists>t. v_reg_add (Some (Reg d)) (Reg r) (Some (Reg g)) u = Some t \<and> shaped t" for d r g
    using v_reg_add_total [OF w, of "Some (Reg d)" "Reg r" "Some (Reg g)"]
    by (auto dest: windowed_shaped)
  have sb: "\<exists>t. v_reg_sub (Some (Reg d)) r g u = Some t \<and> shaped t"
    if "opt_ptr_ok n r" "opt_ptr_ok n g" for d r g
    using v_reg_sub_total [OF w, of "Some (Reg d)" r g] that by (auto dest: windowed_shaped)
  have sb1: "\<exists>t. v_reg_sub (Some (Reg d)) r g (set_flag CARRY 1 u) = Some t \<and> shaped t"
    if "opt_ptr_ok n r" "opt_ptr_ok n g" for d r g
    using v_reg_sub_total [OF w1 assms(2,3), of "Some (Reg d)" r g] that
    by (auto dest: windowed_shaped)
  have ic: "\<exists>t. v_reg_inc (Reg d) u = Some t \<and> shaped t" for d
    using v_reg_inc_total [OF w, of "Reg d"] by (auto dest: windowed_shaped)
  have sl: "\<exists>t. v_reg_shl (Reg d) u = Some t \<and> shaped t" for d
    using v_reg_shl_total [OF w, of "Reg d"] by (auto dest: windowed_shaped)
  have sr: "\<exists>t. v_reg_shr (Reg d) u = Some t \<and> shaped t" for d
    using v_reg_shr_total [OF w, of "Reg d"] by (auto dest: windowed_shaped)
  have tg: "\<exists>t. then_goto (set_flag CARRY v u) = Some t \<and> shaped t" for v
    using sh assms(1,4) by (intro then_goto_total) (simp_all add: windowed_def set_flag_def)
  consider (test) "22 \<le> m \<and> m \<le> 27" | (below) "m < 22" | (above) "27 < m"
    by linarith
  then show ?thesis
  proof cases
    case test
    with arith_test_result [OF w, of m] obtain v
      where "arith_op m u = then_goto (set_flag CARRY v u)" by auto
    with tg [of v] show ?thesis by simp
  next
    case below
    with sh cp ex ad sb sb1 ic sl sr show ?thesis
      by (simp add: arith_op_def)
  next
    case above
    with sh cp ex ad sb sb1 ic sl sr show ?thesis
      by (simp add: arith_op_def)
  qed
qed


lemma execute_total:
  assumes "shaped s" "0 \<le> x" "x < 1024" "- 1 \<le> pc s"
    and "x AND 3 = 0 \<and> drop_bit 2 x AND 3 = 2 \<and> drop_bit 4 x AND 3 = 1 \<longrightarrow> p_reg s < REG_SIZE"
  shows "\<exists>t. execute x s = Some t \<and> shaped t"
proof -
  consider "x AND 3 = 0" | "x AND 3 = 1" | "x AND 3 = 2" | "x AND 3 = 3"
    using and_3_cases [of x] by blast
  then show ?thesis
  proof cases
    case 1
    note cl = this
    consider "drop_bit 2 x AND 3 = 0" | "drop_bit 2 x AND 3 = 1" | "drop_bit 2 x AND 3 = 2"
      | "drop_bit 2 x AND 3 = 3"
      using and_3_cases [of "drop_bit 2 x"] by blast
    then show ?thesis
    proof cases
      case 1
      with cl group0_total [OF assms(1), of x] show ?thesis
        by (simp add: execute_def special_def)
    next
      case 2
      with cl group1_total [OF assms(1,2,3,4)] show ?thesis
        by (simp add: execute_def special_def)
    next
      case 3
      with cl group2_total [OF assms(1), of x] assms(5) show ?thesis
        by (simp add: execute_def special_def)
    next
      case 4
      with cl group3_total [OF assms(1,2,3,4)] show ?thesis
        by (simp add: execute_def special_def)
    qed
  next
    case 2
    with op_jsb_total [OF assms(1)] show ?thesis by (simp add: execute_def)
  next
    case 3
    from decode_window [OF assms(1), of "drop_bit 2 x"] obtain a b
      where w: "windowed a b (length (ram s)) (pc s)
                  (decode_field EXP_SIZE (drop_bit 2 x AND 7) s)" "0 \<le> a" "b < REG_SIZE"
      by blast
    from arith_op_total [OF w assms(4)] 3 show ?thesis
      by (simp add: execute_def arithmetic_def)
  next
    case 4
    with long_branch_total [OF assms(1)] show ?thesis by (simp add: execute_def)
  qed
qed

lemma power_on_shaped: "shaped (power_on h_rom)"
  by (simp add: shaped_def all_regs_def REG_SIZE_def state_defs)

text \<open>
  With the pointer at \<open>REG_SIZE\<close>, where \<open>p - 1 \<rightarrow> p\<close> leaves it after power on, \<open>load n\<close>
  stores one element past the end of the nibbles of C: C leaves that undefined, and the
  model has no result for the tick.
\<close>

lemma load_outside_register:
  "v_processor_tick (power_on (rom_of [(0, 400), (1, 600)])) = Some p14_load_state
   \<and> v_processor_tick p14_load_state = None"
  by (simp add: p14_load_state_def state_defs tick_defs access_defs fun_eq_iff)

text \<open>
  C4, amended. Take a state laid out as the C structure (every register of \<open>REG_SIZE\<close>
  nibbles, 16 status bits, the stack pointer inside the stack, the pointer between 0 and
  \<open>REG_SIZE\<close>), in which every nibble of every register and the F register are digits
  of the base, the base is 10 or 16 and the carry is 0 or 1, with the program counter on
  a 10-bit word of the ROM. Then the tick returns and leaves such a state again,
  including a tick that executes \<open>binary\<close> or \<open>decimal\<close>, provided the instruction is
  not \<open>load n\<close> with \<open>n\<close> not a digit of the base or with the pointer at \<open>REG_SIZE\<close>
  (the store is then outside the register, lemma \<open>load_outside_register\<close>), and is not
  \<open>decimal\<close> (opcode 776) while some nibble or the F register is 10 or more. The state
  after power on is such a state (lemmas \<open>power_on_ok\<close> and \<open>power_on_shaped\<close>).
\<close>

theorem digits_preserved:
  assumes "state_ok s" and "shaped s"
    and "rom_read s (pc s) = Some x" and "0 \<le> x" and "x < 1024"
    and "x AND 3 = 0 \<and> drop_bit 2 x AND 3 = 2 \<and> drop_bit 4 x AND 3 = 1 \<longrightarrow>
           drop_bit 6 x < base s \<and> p_reg s < REG_SIZE"
    and "x = 776 \<longrightarrow> digits_ok (s\<lparr>base := 10\<rparr>) \<and> f_reg s < 10"
  shows "\<exists>s'. v_processor_tick s = Some s' \<and> state_ok s' \<and> shaped s'"
proof -
  have lo: "- 1 \<le> pc s"
    using assms(3) by (simp add: rom_read_def split: if_splits)
  from execute_total [OF assms(2,4,5) lo] assms(6) obtain t
    where t: "execute x s = Some t" "shaped t" by blast
  have "state_ok t"
  proof (rule execute_ok [OF assms(1) t(1) assms(4)])
    show "\<not> (x AND 3 = 0 \<and> drop_bit 2 x AND 3 = 2 \<and> drop_bit 4 x AND 3 = 1
             \<and> base s \<le> drop_bit 6 x)"
      using assms(6) by auto
    show "x = 776 \<longrightarrow> state_ok (s\<lparr>base := 10\<rparr>)"
      using assms(1,7) by (auto intro: decimal_ok)
  qed
  with t assms(3,4,5) show ?thesis
    by (simp add: v_processor_tick_def v_op_inc_pc_ok)
qed

theorem digits_preserved_witness:
  "state_ok load9_state \<and> shaped load9_state
   \<and> rom_read load9_state (pc load9_state) = Some 600
   \<and> (\<exists>s'. v_processor_tick load9_state = Some s' \<and> state_ok s' \<and> shaped s')
   \<and> state_ok binary_state \<and> shaped binary_state
   \<and> rom_read binary_state (pc binary_state) = Some 776
   \<and> digits_ok (binary_state\<lparr>base := 10\<rparr>) \<and> f_reg binary_state < 10
   \<and> (\<exists>s'. v_processor_tick binary_state = Some s' \<and> state_ok s' \<and> shaped s')"
proof -
  have a: "state_ok load9_state" "shaped load9_state"
    unfolding load9_state_def by (rule power_on_ok, rule power_on_shaped)
  have b: "rom_read load9_state (pc load9_state) = Some 600"
    by (simp add: load9_state_def state_defs access_defs)
  have c: "\<exists>s'. v_processor_tick load9_state = Some s' \<and> state_ok s' \<and> shaped s'"
    using digits_preserved [OF a b] by (simp add: load9_state_def state_defs REG_SIZE_def)
  have d: "state_ok binary_state" "shaped binary_state"
    by (simp_all add: binary_state_def state_ok_def digits_ok_def digit_ok_def shaped_def
        all_regs_def REG_SIZE_def state_defs)
  have e: "rom_read binary_state (pc binary_state) = Some 776"
    by (simp add: binary_state_def state_defs access_defs)
  have f: "digits_ok (binary_state\<lparr>base := 10\<rparr>)" "f_reg binary_state < 10"
    by (simp_all add: binary_state_def digits_ok_def digit_ok_def all_regs_def state_defs)
  have g: "\<exists>s'. v_processor_tick binary_state = Some s' \<and> state_ok s' \<and> shaped s'"
    using digits_preserved [OF d e] f by simp
  from a b c d e f g show ?thesis by blast
qed

section \<open>Delayed ROM select\<close>

lemma test_phase:
  assumes "shaped s" "0 \<le> x" "x < 1024" "is_test x"
  shows "\<exists>t. execute x s = then_goto t \<and> pc t = pc s \<and> rom t = rom s
           \<and> delayed_rom_number t = delayed_rom_number s
           \<and> (\<forall>fl. fl \<noteq> CARRY \<longrightarrow> flags t fl = flags s fl)"
proof -
  consider (special) "x AND 3 = 0" "drop_bit 2 x AND 3 = 1 \<or> drop_bit 2 x AND 3 = 3"
      "drop_bit 4 x AND 3 = 1 \<or> drop_bit 4 x AND 3 = 2"
    | (arith) "x AND 3 = 2" "22 \<le> drop_bit 5 x" "drop_bit 5 x \<le> 27"
    using assms(4) by (auto simp add: is_test_def)
  then show ?thesis
  proof cases
    case special
    have "\<exists>v. execute x s = then_goto (set_flag CARRY v s)"
      using special status_index(1) [OF assms(1,2,3)] table_index(1) [OF assms(2,3)]
      by (auto simp add: execute_def special_def group1_def group3_def)
    then obtain v where "execute x s = then_goto (set_flag CARRY v s)" ..
    then show ?thesis
      by (intro exI [of _ "set_flag CARRY v s"]) (simp add: set_flag_def)
  next
    case arith
    let ?u = "decode_field EXP_SIZE (drop_bit 2 x AND 7) s"
    from decode_window [OF assms(1), of "drop_bit 2 x"] obtain a b
      where w: "windowed a b (length (ram s)) (pc s) ?u" "0 \<le> a" "b < REG_SIZE"
      by blast
    from arith_test_result [OF w arith(2,3)] obtain v
      where "arith_op (drop_bit 5 x) ?u = then_goto (set_flag CARRY v ?u)" ..
    with arith(1) have "execute x s = then_goto (set_flag CARRY v ?u)"
      by (simp add: execute_def arithmetic_def)
    then show ?thesis
      by (intro exI [of _ "set_flag CARRY v ?u"]) (simp add: set_flag_def decode_field_frame)
  qed
qed

text \<open>
  C10. With a delayed ROM select pending, a tick on a word of the long-branch class
  commits the pending bank whether the branch is taken or not: the high bits of the
  program counter come from \<open>delayed_rom_number\<close>, the low eight from the target when the
  previous carry is clear and from the program counter as it was when it is set, and
  the flag is cleared. The goto that follows a test commits the pending bank only when
  the branch is taken. \<open>v_op_goto\<close> returns the state as it was when the previous carry
  is set, and jumps into the pending bank when it is clear; so does \<open>then_goto\<close> with
  the carry. And so does the tick of every test instruction (\<open>is_test\<close>): its semantic
  phase is a comparison that changes no flag but the carry, followed by \<open>then_goto\<close>; if
  the carry is left clear the tick ends in the pending bank, at the address given by the
  low eight bits of the next word less one, with the flag cleared; if it is left set the
  program counter advances twice and the select is still pending. For \<open>if 1 = s(n)\<close> the
  carry is left clear exactly when the status bit is 1.
\<close>

theorem delayed_rom_commit:
  assumes "flags s DELAYED_ROM \<noteq> 0"
  shows "(rom_read s (pc s) = Some i_opcode \<and> 0 \<le> i_opcode \<and> i_opcode < 1024
            \<and> i_opcode AND 3 = 3 \<longrightarrow>
          v_processor_tick s =
            Some (v_op_inc_pc (set_flag DELAYED_ROM 0
                    (s\<lparr>pc := push_bit 8 (delayed_rom_number s)
                              OR ((if flags s PREV_CARRY = 0
                                   then ((pc s AND 65280) OR drop_bit 2 i_opcode) - 1
                                   else pc s) AND 255)\<rparr>))))
       \<and> (flags s PREV_CARRY \<noteq> 0 \<and> (flags s TRACE = 0 \<or> rom_read s (pc s) \<noteq> None) \<longrightarrow>
          v_op_goto s = Some s)
       \<and> (flags s PREV_CARRY = 0 \<and> rom_read s (pc s) = Some w \<longrightarrow>
          v_op_goto s =
            Some (set_flag DELAYED_ROM 0
                    (s\<lparr>pc := push_bit 8 (delayed_rom_number s) OR ((w - 1) AND 255)\<rparr>)))
       \<and> (flags s CARRY \<noteq> 0
            \<and> (flags s TRACE = 0 \<or> rom_read (v_op_inc_pc s) (pc (v_op_inc_pc s)) \<noteq> None) \<longrightarrow>
          then_goto s = Some (v_op_inc_pc s)
          \<and> flags (v_op_inc_pc s) DELAYED_ROM = flags s DELAYED_ROM)
       \<and> (flags s CARRY = 0 \<and> - 1 \<le> pc s \<longrightarrow>
          then_goto s =
            Some (set_flag DELAYED_ROM 0
                    ((v_op_inc_pc s)\<lparr>pc := push_bit 8 (delayed_rom_number s)
                              OR ((rom s (pc (v_op_inc_pc s)) - 1) AND 255)\<rparr>)))
       \<and> (rom_read s (pc s) = Some i_opcode \<and> 0 \<le> i_opcode \<and> i_opcode < 1024
            \<and> is_test i_opcode \<and> shaped s \<longrightarrow>
          (\<exists>t. execute i_opcode s = then_goto t \<and> pc t = pc s \<and> rom t = rom s
             \<and> delayed_rom_number t = delayed_rom_number s
             \<and> (\<forall>fl. fl \<noteq> CARRY \<longrightarrow> flags t fl = flags s fl)
             \<and> v_processor_tick s =
                 Some (v_op_inc_pc
                   (if flags t CARRY = 0
                    then set_flag DELAYED_ROM 0
                           ((v_op_inc_pc t)\<lparr>pc := push_bit 8 (delayed_rom_number s)
                              OR ((rom s (pc (v_op_inc_pc s)) - 1) AND 255)\<rparr>)
                    else v_op_inc_pc t))))
       \<and> (rom_read s (pc s) = Some i_opcode \<and> 0 \<le> i_opcode \<and> i_opcode < 1024
            \<and> i_opcode AND 3 = 0 \<and> drop_bit 2 i_opcode AND 3 = 1
            \<and> drop_bit 4 i_opcode AND 3 = 1 \<and> at (status s) (drop_bit 6 i_opcode) = Some b \<longrightarrow>
          v_processor_tick s =
            Some (v_op_inc_pc
              (if b = 1
               then set_flag DELAYED_ROM 0
                      ((v_op_inc_pc (set_flag CARRY 0 s))\<lparr>pc := push_bit 8 (delayed_rom_number s)
                         OR ((rom s (pc (v_op_inc_pc s)) - 1) AND 255)\<rparr>)
               else v_op_inc_pc (set_flag CARRY 1 s))))"
proof -
  have tk: "then_goto t =
      Some (if flags t CARRY = 0
            then set_flag DELAYED_ROM 0
                   ((v_op_inc_pc t)\<lparr>pc := push_bit 8 (delayed_rom_number s)
                      OR ((rom s (pc (v_op_inc_pc s)) - 1) AND 255)\<rparr>)
            else v_op_inc_pc t)"
    if "- 1 \<le> pc t" "pc t = pc s" "rom t = rom s"
      "delayed_rom_number t = delayed_rom_number s" "flags t DELAYED_ROM = flags s DELAYED_ROM"
    for t
  proof -
    have "pc (v_op_inc_pc t) = pc (v_op_inc_pc s)"
      using that(2) by (simp add: v_op_inc_pc_def set_flag_def)
    with that assms show ?thesis
      by (simp add: then_goto_result delayed_rom_switch_def)
        (simp add: v_op_inc_pc_def set_flag_def)
  qed
  have a: "rom_read s (pc s) = Some i_opcode \<and> 0 \<le> i_opcode \<and> i_opcode < 1024
            \<and> i_opcode AND 3 = 3 \<longrightarrow>
          v_processor_tick s =
            Some (v_op_inc_pc (set_flag DELAYED_ROM 0
                    (s\<lparr>pc := push_bit 8 (delayed_rom_number s)
                              OR ((if flags s PREV_CARRY = 0
                                   then ((pc s AND 65280) OR drop_bit 2 i_opcode) - 1
                                   else pc s) AND 255)\<rparr>)))"
    using assms
    by (simp add: v_processor_tick_def execute_def long_branch_def delayed_rom_switch_def)
  have b: "flags s PREV_CARRY \<noteq> 0 \<and> (flags s TRACE = 0 \<or> rom_read s (pc s) \<noteq> None) \<longrightarrow>
          v_op_goto s = Some s"
    by (auto simp add: v_op_goto_def)
  have c: "flags s PREV_CARRY = 0 \<and> rom_read s (pc s) = Some w \<longrightarrow>
          v_op_goto s =
            Some (set_flag DELAYED_ROM 0
                    (s\<lparr>pc := push_bit 8 (delayed_rom_number s) OR ((w - 1) AND 255)\<rparr>))"
    using assms by (simp add: v_op_goto_def delayed_rom_switch_def)
  have d: "flags s CARRY \<noteq> 0
            \<and> (flags s TRACE = 0 \<or> rom_read (v_op_inc_pc s) (pc (v_op_inc_pc s)) \<noteq> None) \<longrightarrow>
          then_goto s = Some (v_op_inc_pc s)
          \<and> flags (v_op_inc_pc s) DELAYED_ROM = flags s DELAYED_ROM"
    by (auto simp add: then_goto_def v_op_goto_def v_op_inc_pc_def set_flag_def)
  have e: "flags s CARRY = 0 \<and> - 1 \<le> pc s \<longrightarrow>
          then_goto s =
            Some (set_flag DELAYED_ROM 0
                    ((v_op_inc_pc s)\<lparr>pc := push_bit 8 (delayed_rom_number s)
                              OR ((rom s (pc (v_op_inc_pc s)) - 1) AND 255)\<rparr>))"
    using tk [of s] by simp
  have f: "rom_read s (pc s) = Some i_opcode \<and> 0 \<le> i_opcode \<and> i_opcode < 1024
            \<and> is_test i_opcode \<and> shaped s \<longrightarrow>
          (\<exists>t. execute i_opcode s = then_goto t \<and> pc t = pc s \<and> rom t = rom s
             \<and> delayed_rom_number t = delayed_rom_number s
             \<and> (\<forall>fl. fl \<noteq> CARRY \<longrightarrow> flags t fl = flags s fl)
             \<and> v_processor_tick s =
                 Some (v_op_inc_pc
                   (if flags t CARRY = 0
                    then set_flag DELAYED_ROM 0
                           ((v_op_inc_pc t)\<lparr>pc := push_bit 8 (delayed_rom_number s)
                              OR ((rom s (pc (v_op_inc_pc s)) - 1) AND 255)\<rparr>)
                    else v_op_inc_pc t)))"
  proof (intro impI, elim conjE)
    assume h: "rom_read s (pc s) = Some i_opcode" "0 \<le> i_opcode" "i_opcode < 1024"
      "is_test i_opcode" "shaped s"
    have lo: "- 1 \<le> pc s"
      using h(1) by (simp add: rom_read_def split: if_splits)
    from test_phase [OF h(5,2,3,4)] obtain t
      where t: "execute i_opcode s = then_goto t" "pc t = pc s" "rom t = rom s"
        "delayed_rom_number t = delayed_rom_number s"
        "\<forall>fl. fl \<noteq> CARRY \<longrightarrow> flags t fl = flags s fl"
      by blast
    from t(5) have fl: "flags t DELAYED_ROM = flags s DELAYED_ROM" by simp
    have "v_processor_tick s =
                 Some (v_op_inc_pc
                   (if flags t CARRY = 0
                    then set_flag DELAYED_ROM 0
                           ((v_op_inc_pc t)\<lparr>pc := push_bit 8 (delayed_rom_number s)
                              OR ((rom s (pc (v_op_inc_pc s)) - 1) AND 255)\<rparr>)
                    else v_op_inc_pc t))"
      using h(1,2,3) t(1) tk [of t] lo t(2,3,4) fl
      by (simp add: v_processor_tick_def)
    with t show "\<exists>t. execute i_opcode s = then_goto t \<and> pc t = pc s \<and> rom t = rom s
             \<and> delayed_rom_number t = delayed_rom_number s
             \<and> (\<forall>fl. fl \<noteq> CARRY \<longrightarrow> flags t fl = flags s fl)
             \<and> v_processor_tick s =
                 Some (v_op_inc_pc
                   (if flags t CARRY = 0
                    then set_flag DELAYED_ROM 0
                           ((v_op_inc_pc t)\<lparr>pc := push_bit 8 (delayed_rom_number s)
                              OR ((rom s (pc (v_op_inc_pc s)) - 1) AND 255)\<rparr>)
                    else v_op_inc_pc t))"
      by blast
  qed
  have g: "rom_read s (pc s) = Some i_opcode \<and> 0 \<le> i_opcode \<and> i_opcode < 1024
            \<and> i_opcode AND 3 = 0 \<and> drop_bit 2 i_opcode AND 3 = 1
            \<and> drop_bit 4 i_opcode AND 3 = 1 \<and> at (status s) (drop_bit 6 i_opcode) = Some b \<longrightarrow>
          v_processor_tick s =
            Some (v_op_inc_pc
              (if b = 1
               then set_flag DELAYED_ROM 0
                      ((v_op_inc_pc (set_flag CARRY 0 s))\<lparr>pc := push_bit 8 (delayed_rom_number s)
                         OR ((rom s (pc (v_op_inc_pc s)) - 1) AND 255)\<rparr>)
               else v_op_inc_pc (set_flag CARRY 1 s)))"
  proof (intro impI, elim conjE)
    assume h: "rom_read s (pc s) = Some i_opcode" "0 \<le> i_opcode" "i_opcode < 1024"
      "i_opcode AND 3 = 0" "drop_bit 2 i_opcode AND 3 = 1" "drop_bit 4 i_opcode AND 3 = 1"
      "at (status s) (drop_bit 6 i_opcode) = Some b"
    have lo: "- 1 \<le> pc s"
      using h(1) by (simp add: rom_read_def split: if_splits)
    have ex: "execute i_opcode s = then_goto (set_flag CARRY (if b \<noteq> 1 then 1 else 0) s)"
      using h(4,5,6,7) by (simp add: execute_def special_def group1_def)
    show "v_processor_tick s =
            Some (v_op_inc_pc
              (if b = 1
               then set_flag DELAYED_ROM 0
                      ((v_op_inc_pc (set_flag CARRY 0 s))\<lparr>pc := push_bit 8 (delayed_rom_number s)
                         OR ((rom s (pc (v_op_inc_pc s)) - 1) AND 255)\<rparr>)
               else v_op_inc_pc (set_flag CARRY 1 s)))"
      using h(1,2,3) ex tk [of "set_flag CARRY 0 s"] tk [of "set_flag CARRY 1 s"] lo
      by (simp add: v_processor_tick_def set_flag_def)
  qed
  from a b c d e f g show ?thesis by blast
qed

theorem delayed_rom_commit_witness:
  "flags pending_state DELAYED_ROM = 1 \<and> flags taken_state DELAYED_ROM = 1
   \<and> flags test_taken_state DELAYED_ROM = 1 \<and> flags test_skipped_state DELAYED_ROM = 1
   \<and> map_option pc_and_delayed (v_processor_tick pending_state) = Some (516, 0)
   \<and> map_option pc_and_delayed (v_processor_tick taken_state) = Some (513, 0)
   \<and> v_op_goto pending_state = Some pending_state
   \<and> map_option pc_and_delayed (v_op_goto taken_state) = Some (518, 0)
   \<and> map_option pc_and_delayed (then_goto (set_flag CARRY 1 taken_state)) = Some (4, 1)
   \<and> map_option pc_and_delayed (then_goto taken_state) = Some (767, 0)
   \<and> is_test 212 \<and> shaped test_taken_state
   \<and> at (status test_taken_state) (drop_bit 6 212) = Some 1
   \<and> map_option pc_and_delayed (v_processor_tick test_taken_state) = Some (592, 0)
   \<and> at (status test_skipped_state) (drop_bit 6 276) = Some 0
   \<and> map_option pc_and_delayed (v_processor_tick test_skipped_state) = Some (5, 1)"
  using delayed_rom_commit [of pending_state 7 7 0] delayed_rom_commit [of taken_state 7 7 0]
    delayed_rom_commit [of "set_flag CARRY 1 taken_state" 7 7 0]
    delayed_rom_commit [of test_taken_state 212 7 1]
    delayed_rom_commit [of test_skipped_state 276 7 0]
  by (simp add: pending_state_def taken_state_def test_taken_state_def test_skipped_state_def
      pc_and_delayed_def state_defs access_defs v_op_inc_pc_def is_test_def shaped_def
      all_regs_def replicate_14)

end
